theory Spec2Isabelle
  imports Main "HOL-Library.Word" "HOL-Library.Char_ord" "HOL-Library.List_Lexorder"
begin

section \<open>Machine model\<close>

text \<open>
  \<open>size_t\<close> is a 64-bit unsigned integer: \<open>+\<close> and \<open>-\<close> wrap around. A pointer is an
  address of the same width, and \<open>ps[i]\<close> reads the byte at address \<open>ps + i\<close>, computed
  modulo \<open>2 ^ 64\<close>. The memory maps every address either to the byte stored there or to
  \<open>None\<close> when nothing is mapped; reading an unmapped address is the error
  \<open>InvalidAccess\<close>, a failed \<open>assert\<close> is \<open>AssertionFailed\<close>.
\<close>

type_synonym size_t = "64 word"
type_synonym pointer = "64 word"
type_synonym memory = "pointer \<Rightarrow> char option"

datatype error = AssertionFailed | InvalidAccess

definition nullptr :: pointer where
  "nullptr = 0"

definition NUL :: char where
  "NUL = CHR 0x00"

definition load :: "memory \<Rightarrow> pointer \<Rightarrow> error + char" where
  "load m a = (case m a of None \<Rightarrow> Inl InvalidAccess | Some c \<Rightarrow> Inr c)"

text \<open>The bytes at \<open>p, p + 1, ..., p + n - 1\<close>, and whether all of them are mapped.\<close>

definition range_mapped :: "memory \<Rightarrow> pointer \<Rightarrow> nat \<Rightarrow> bool" where
  "range_mapped m p n = list_all (\<lambda>i. m (p + of_nat i) \<noteq> None) [0..<n]"

definition read_bytes :: "memory \<Rightarrow> pointer \<Rightarrow> nat \<Rightarrow> char list" where
  "read_bytes m p n = map (\<lambda>i. the (m (p + of_nat i))) [0..<n]"

text \<open>Placing a byte sequence, or a string literal with its terminator, at an address.\<close>

fun store_bytes :: "pointer \<Rightarrow> char list \<Rightarrow> memory \<Rightarrow> memory" where
  "store_bytes a [] m = m"
| "store_bytes a (c # cs) m = (store_bytes (a + 1) cs m)(a := Some c)"

definition store_cstr :: "pointer \<Rightarrow> char list \<Rightarrow> memory \<Rightarrow> memory" where
  "store_cstr a s m = store_bytes a (s @ [NUL]) m"

definition no_memory :: memory where
  "no_memory = (\<lambda>a. None)"

section \<open>The view: \<open>class adt::string_ref\<close>\<close>

record string_ref =
  ps :: pointer
  len :: size_t

definition npos :: size_t where
  "npos = - 1"

definition capacity :: size_t where
  "capacity = npos"

text \<open>
  The characters a view denotes in a memory, and the condition under which they can be
  read: the range \<open>[ps, ps + len)\<close> ends below the top of the address space, does not
  start at the null pointer unless it is empty, and is mapped.
\<close>

definition chars :: "memory \<Rightarrow> string_ref \<Rightarrow> char list" where
  "chars m v = read_bytes m (ps v) (unat (len v))"

definition readable :: "memory \<Rightarrow> string_ref \<Rightarrow> bool" where
  "readable m v \<longleftrightarrow>
     unat (ps v) + unat (len v) < 2 ^ 64 \<and> (ps v \<noteq> nullptr \<or> len v = 0) \<and>
     range_mapped m (ps v) (unat (len v))"

subsection \<open>C library functions the class calls\<close>

text \<open>
  \<open>std::strlen\<close>, as the C standard describes it: the number of bytes before the first
  terminator. The argument must point to a terminated string; running into unmapped
  memory, or through the whole address space, before a terminator is an invalid access.
\<close>

function strlen_from :: "memory \<Rightarrow> pointer \<Rightarrow> nat \<Rightarrow> error + size_t" where
  "strlen_from m p n =
     (if 2 ^ 64 \<le> n then Inl InvalidAccess
      else case load m (p + of_nat n) of
             Inl e \<Rightarrow> Inl e
           | Inr c \<Rightarrow> if c = NUL then Inr (of_nat n) else strlen_from m p (Suc n))"
  by pat_completeness auto
termination
  by (relation "measure (\<lambda>(m, p, n). 2 ^ 64 - n)") auto

definition strlen :: "memory \<Rightarrow> pointer \<Rightarrow> error + size_t" where
  "strlen m p = strlen_from m p 0"

text \<open>
  \<open>std::memcmp\<close>: compares the first \<open>n\<close> bytes of both ranges as unsigned values. The
  C standard fixes the sign of the result only; the model returns the difference at the
  first position where the ranges differ, 0 when there is none. Its callers look at the
  sign alone. Both ranges must be readable.
\<close>

fun memcmp_bytes :: "char list \<Rightarrow> char list \<Rightarrow> int" where
  "memcmp_bytes (x # xs) (y # ys) =
     (if x = y then memcmp_bytes xs ys else int (of_char x) - int (of_char y))"
| "memcmp_bytes xs ys = 0"

definition memcmp :: "memory \<Rightarrow> pointer \<Rightarrow> pointer \<Rightarrow> size_t \<Rightarrow> error + int" where
  "memcmp m lhs rhs n =
     (if range_mapped m lhs (unat n) \<and> range_mapped m rhs (unat n)
      then Inr (memcmp_bytes (read_bytes m lhs (unat n)) (read_bytes m rhs (unat n)))
      else Inl InvalidAccess)"

subsection \<open>Constructors\<close>

text \<open>\<open>string_ref() : ps(nullptr), len(0)\<close>\<close>

definition string_ref_default :: string_ref where
  "string_ref_default = \<lparr>ps = nullptr, len = 0\<rparr>"

text \<open>\<open>string_ref(const char *str) : ps(str), len(str ? std::strlen(str) : 0)\<close>\<close>

definition string_ref_cstr :: "memory \<Rightarrow> pointer \<Rightarrow> error + string_ref" where
  "string_ref_cstr m str =
     (if str \<noteq> nullptr
      then (case strlen m str of Inl e \<Rightarrow> Inl e | Inr n \<Rightarrow> Inr \<lparr>ps = str, len = n\<rparr>)
      else Inr \<lparr>ps = str, len = 0\<rparr>)"

text \<open>\<open>string_ref(const char *str, size_t len) : ps(str), len(len)\<close>\<close>

definition string_ref_ptr_len :: "pointer \<Rightarrow> size_t \<Rightarrow> string_ref" where
  "string_ref_ptr_len str n = \<lparr>ps = str, len = n\<rparr>"

text \<open>
  \<open>withNullAsEmpty(ptr)\<close> is \<open>string_ref(ptr ? ptr : "")\<close>. The address at which the
  compiler placed the literal \<open>""\<close> is the parameter \<open>empty_literal\<close>.
\<close>

definition withNullAsEmpty :: "memory \<Rightarrow> pointer \<Rightarrow> pointer \<Rightarrow> error + string_ref" where
  "withNullAsEmpty m empty_literal ptr =
     string_ref_cstr m (if ptr \<noteq> nullptr then ptr else empty_literal)"

subsection \<open>Accessors and comparison\<close>

definition empty_ref :: "string_ref \<Rightarrow> bool" where
  "empty_ref v \<longleftrightarrow> len v = 0"

definition size_ref :: "string_ref \<Rightarrow> size_t" where
  "size_ref v = len v"

text \<open>\<open>std::string(ps, len)\<close>: a copy of the \<open>len\<close> bytes at \<open>ps\<close>.\<close>

definition to_string :: "memory \<Rightarrow> string_ref \<Rightarrow> error + char list" where
  "to_string m v =
     (if range_mapped m (ps v) (unat (len v)) then Inr (read_bytes m (ps v) (unat (len v)))
      else Inl InvalidAccess)"

text \<open>\<open>operator[]\<close>: \<open>assert(pos < len)\<close>, then \<open>ps[pos]\<close>.\<close>

definition at :: "memory \<Rightarrow> string_ref \<Rightarrow> size_t \<Rightarrow> error + char" where
  "at m v pos = (if pos < len v then load m (ps v + pos) else Inl AssertionFailed)"

definition memCompare :: "memory \<Rightarrow> pointer \<Rightarrow> pointer \<Rightarrow> size_t \<Rightarrow> error + int" where
  "memCompare m lhs rhs n = (if n = 0 then Inr 0 else memcmp m lhs rhs n)"

definition equals :: "memory \<Rightarrow> string_ref \<Rightarrow> string_ref \<Rightarrow> error + bool" where
  "equals m v rhs =
     (if len v = len rhs
      then (case memCompare m (ps v) (ps rhs) (len v) of
              Inl e \<Rightarrow> Inl e
            | Inr r \<Rightarrow> Inr (r = 0))
      else Inr False)"

definition compare :: "memory \<Rightarrow> string_ref \<Rightarrow> string_ref \<Rightarrow> error + int" where
  "compare m v rhs =
     (case memCompare m (ps v) (ps rhs) (min (len v) (len rhs)) of
        Inl e \<Rightarrow> Inl e
      | Inr r \<Rightarrow>
          if r \<noteq> 0 then Inr (if r < 0 then - 1 else 1)
          else if len v = len rhs then Inr 0
          else Inr (if len v < len rhs then - 1 else 1))"

text \<open>
  The comparison operators of namespace \<open>adt\<close>: \<open>==\<close> and \<open>!=\<close> call \<open>equals\<close>, the
  others compare the result of \<open>compare\<close> with 0.
\<close>

definition op_eq :: "memory \<Rightarrow> string_ref \<Rightarrow> string_ref \<Rightarrow> error + bool" where
  "op_eq m lhs rhs = equals m lhs rhs"

definition op_ne :: "memory \<Rightarrow> string_ref \<Rightarrow> string_ref \<Rightarrow> error + bool" where
  "op_ne m lhs rhs = (case equals m lhs rhs of Inl e \<Rightarrow> Inl e | Inr b \<Rightarrow> Inr (\<not> b))"

definition op_lt :: "memory \<Rightarrow> string_ref \<Rightarrow> string_ref \<Rightarrow> error + bool" where
  "op_lt m lhs rhs = (case compare m lhs rhs of Inl e \<Rightarrow> Inl e | Inr r \<Rightarrow> Inr (r < 0))"

definition op_le :: "memory \<Rightarrow> string_ref \<Rightarrow> string_ref \<Rightarrow> error + bool" where
  "op_le m lhs rhs = (case compare m lhs rhs of Inl e \<Rightarrow> Inl e | Inr r \<Rightarrow> Inr (r \<le> 0))"

definition op_gt :: "memory \<Rightarrow> string_ref \<Rightarrow> string_ref \<Rightarrow> error + bool" where
  "op_gt m lhs rhs = (case compare m lhs rhs of Inl e \<Rightarrow> Inl e | Inr r \<Rightarrow> Inr (r > 0))"

definition op_ge :: "memory \<Rightarrow> string_ref \<Rightarrow> string_ref \<Rightarrow> error + bool" where
  "op_ge m lhs rhs = (case compare m lhs rhs of Inl e \<Rightarrow> Inl e | Inr r \<Rightarrow> Inr (r \<ge> 0))"

subsection \<open>Slicing\<close>

definition substr :: "string_ref \<Rightarrow> size_t \<Rightarrow> size_t \<Rightarrow> string_ref" where
  "substr v start num =
     (let start = min start (len v)
      in \<lparr>ps = ps v + start, len = min num (len v - start)\<rparr>)"

definition slice :: "string_ref \<Rightarrow> size_t \<Rightarrow> size_t \<Rightarrow> string_ref" where
  "slice v start end =
     (let (start, end) = (if start > end then (end, start) else (start, end));
          start = min start (len v);
          end = min (max start end) (len v)
      in \<lparr>ps = ps v + start, len = end - start\<rparr>)"

definition take_front :: "string_ref \<Rightarrow> size_t \<Rightarrow> string_ref" where
  "take_front v n = \<lparr>ps = ps v, len = min n (len v)\<rparr>"

definition drop_front :: "string_ref \<Rightarrow> size_t \<Rightarrow> error + string_ref" where
  "drop_front v n = (if n \<le> len v then Inr (substr v n capacity) else Inl AssertionFailed)"

definition drop_back :: "string_ref \<Rightarrow> size_t \<Rightarrow> error + string_ref" where
  "drop_back v n = (if n \<le> len v then Inr (substr v 0 (len v - n)) else Inl AssertionFailed)"

definition take_back :: "string_ref \<Rightarrow> size_t \<Rightarrow> error + string_ref" where
  "take_back v n = (if n \<le> len v then drop_front v (len v - n) else Inr v)"


subsection \<open>Searching for a character\<close>

text \<open>\<open>for (size_t i = start; i < len; ++i) { if (c == ps[i]) { return i; } } return npos;\<close>\<close>

function find_char_loop :: "memory \<Rightarrow> string_ref \<Rightarrow> char \<Rightarrow> size_t \<Rightarrow> error + size_t" where
  "find_char_loop m v c i =
     (if i < len v
      then (case load m (ps v + i) of
              Inl e \<Rightarrow> Inl e
            | Inr x \<Rightarrow> if c = x then Inr i else find_char_loop m v c (i + 1))
      else Inr npos)"
  by pat_completeness auto
termination
proof (relation "measure (\<lambda>(m, v, c, i). unat (len v - i))")
  fix m :: memory and v :: string_ref and c x :: char and i :: size_t
  assume "i < len v"
  then have "len v - i \<noteq> 0"
    by auto
  then have "unat (len v - i - 1) < unat (len v - i)"
    by (rule measure_unat)
  then show "((m, v, c, i + 1), (m, v, c, i)) \<in> measure (\<lambda>(m, v, c, i). unat (len v - i))"
    by (simp add: diff_diff_eq add.commute)
qed simp

definition find_char :: "memory \<Rightarrow> string_ref \<Rightarrow> char \<Rightarrow> size_t \<Rightarrow> error + size_t" where
  "find_char m v c start = (if start \<ge> len v then Inr npos else find_char_loop m v c start)"

text \<open>
  \<open>for (size_t i = std::min(rstart, len - 1); i >= 0; --i) { if (c == ps[i]) { return i; } }\<close>
  \<open>return npos;\<close>
  The loop has no other exit than its \<open>return i\<close>, so it need not return: the result
  \<open>None\<close> stands for a scan that runs forever.
\<close>

partial_function (option) rfind_char_loop ::
  "memory \<Rightarrow> string_ref \<Rightarrow> char \<Rightarrow> size_t \<Rightarrow> (error + size_t) option" where
  "rfind_char_loop m v c i =
     (if i \<ge> 0
      then (case load m (ps v + i) of
              Inl e \<Rightarrow> Some (Inl e)
            | Inr x \<Rightarrow> if c = x then Some (Inr i) else rfind_char_loop m v c (i - 1))
      else Some (Inr npos))"

definition rfind_char :: "memory \<Rightarrow> string_ref \<Rightarrow> char \<Rightarrow> size_t \<Rightarrow> (error + size_t) option" where
  "rfind_char m v c rstart = rfind_char_loop m v c (min rstart (len v - 1))"

partial_function (option) rfind_if_loop ::
  "memory \<Rightarrow> string_ref \<Rightarrow> (char \<Rightarrow> bool) \<Rightarrow> size_t \<Rightarrow> (error + size_t) option" where
  "rfind_if_loop m v pred i =
     (if i \<ge> 0
      then (case load m (ps v + i) of
              Inl e \<Rightarrow> Some (Inl e)
            | Inr x \<Rightarrow> if pred x then Some (Inr i) else rfind_if_loop m v pred (i - 1))
      else Some (Inr npos))"

definition rfind_if ::
  "memory \<Rightarrow> string_ref \<Rightarrow> (char \<Rightarrow> bool) \<Rightarrow> size_t \<Rightarrow> (error + size_t) option" where
  "rfind_if m v pred rstart = rfind_if_loop m v pred (min rstart (len v - 1))"


subsection \<open>Searching for a pattern\<close>

text \<open>
  What a C function sees of the buffer of a \<open>std::string\<close> through \<open>c_str()\<close>: the bytes
  before the first terminator (the buffer ends with one).
\<close>

definition c_str :: "char list \<Rightarrow> char list" where
  "c_str s = takeWhile (\<lambda>c. c \<noteq> NUL) s"

text \<open>
  The C string at an address: the bytes before the first terminator. As for \<open>strlen\<close>,
  there is an invalid access when no terminator is found.
\<close>

function c_string_from :: "memory \<Rightarrow> pointer \<Rightarrow> nat \<Rightarrow> error + char list" where
  "c_string_from m p n =
     (if 2 ^ 64 \<le> n then Inl InvalidAccess
      else case load m (p + of_nat n) of
             Inl e \<Rightarrow> Inl e
           | Inr c \<Rightarrow>
               if c = NUL then Inr []
               else (case c_string_from m p (Suc n) of
                       Inl e \<Rightarrow> Inl e
                     | Inr s \<Rightarrow> Inr (c # s)))"
  by pat_completeness auto
termination
  by (relation "measure (\<lambda>(m, p, n). 2 ^ 64 - n)") auto

text \<open>The first position at which \<open>needle\<close> occurs in \<open>hay\<close>.\<close>

fun find_sub :: "char list \<Rightarrow> char list \<Rightarrow> nat option" where
  "find_sub needle [] = (if needle = [] then Some 0 else None)"
| "find_sub needle (h # hs) =
     (if take (length needle) (h # hs) = needle then Some 0
      else map_option Suc (find_sub needle hs))"

text \<open>
  \<open>std::strstr(haystack, needle)\<close>, as the C standard describes it: a pointer to the first
  occurrence of the string \<open>needle\<close> in the string at \<open>haystack\<close>, the null pointer when
  there is none. The needle is passed as the string it holds.
\<close>

definition strstr :: "memory \<Rightarrow> pointer \<Rightarrow> char list \<Rightarrow> error + pointer" where
  "strstr m haystack needle =
     (case c_string_from m haystack 0 of
        Inl e \<Rightarrow> Inl e
      | Inr hay \<Rightarrow>
          Inr (case find_sub needle hay of
                 None \<Rightarrow> nullptr
               | Some i \<Rightarrow> haystack + of_nat i))"

definition find_str :: "memory \<Rightarrow> string_ref \<Rightarrow> string_ref \<Rightarrow> error + size_t" where
  "find_str m v pattern =
     (if size_ref pattern = 0 then Inr 0
      else case to_string m pattern of
             Inl e \<Rightarrow> Inl e
           | Inr s \<Rightarrow>
               (case strstr m (ps v) (c_str s) of
                  Inl e \<Rightarrow> Inl e
                | Inr found \<Rightarrow> if found = nullptr then Inr npos else Inr (found - ps v)))"

text \<open>
  \<open>std::string::rfind(str)\<close>: the highest position at which \<open>str\<close> occurs, \<open>npos\<close> when
  there is none.
\<close>

fun rfind_from :: "char list \<Rightarrow> char list \<Rightarrow> nat \<Rightarrow> nat option" where
  "rfind_from s p 0 = (if take (length p) s = p then Some 0 else None)"
| "rfind_from s p (Suc i) =
     (if take (length p) (drop (Suc i) s) = p then Some (Suc i) else rfind_from s p i)"

definition rfind_sub :: "char list \<Rightarrow> char list \<Rightarrow> nat option" where
  "rfind_sub s p = (if length p \<le> length s then rfind_from s p (length s - length p) else None)"

definition std_string_rfind :: "char list \<Rightarrow> char list \<Rightarrow> size_t" where
  "std_string_rfind s p = (case rfind_sub s p of None \<Rightarrow> npos | Some i \<Rightarrow> of_nat i)"

definition rfind_str :: "memory \<Rightarrow> string_ref \<Rightarrow> string_ref \<Rightarrow> error + size_t" where
  "rfind_str m v pattern =
     (if size_ref pattern = 0 then Inr 0
      else case to_string m v of
             Inl e \<Rightarrow> Inl e
           | Inr s \<Rightarrow>
               (case to_string m pattern of
                  Inl e \<Rightarrow> Inl e
                | Inr p \<Rightarrow>
                    (let pos = std_string_rfind s p
                     in if pos = npos then Inr npos else Inr pos)))"

subsection \<open>Counting\<close>

text \<open>
  \<open>for (size_t i = 0, e = len - patternLen + 1; i != e; ++i)\<close>
  \<open>{ if (substr(i, patternLen).equals(pattern)) { ++count; } }\<close>
\<close>

function count_str_loop ::
  "memory \<Rightarrow> string_ref \<Rightarrow> string_ref \<Rightarrow> size_t \<Rightarrow> size_t \<Rightarrow> size_t \<Rightarrow> error + size_t" where
  "count_str_loop m v pattern e i count =
     (if i \<noteq> e
      then (case equals m (substr v i (len pattern)) pattern of
              Inl err \<Rightarrow> Inl err
            | Inr b \<Rightarrow> count_str_loop m v pattern e (i + 1) (if b then count + 1 else count))
      else Inr count)"
  by pat_completeness auto
termination
proof (relation "measure (\<lambda>(m, v, pattern, e, i, count). unat (e - i))")
  fix m :: memory and v pattern :: string_ref and e i count :: size_t and b :: bool
  assume "i \<noteq> e"
  then have "e - i \<noteq> 0"
    by auto
  then have "unat (e - i - 1) < unat (e - i)"
    by (rule measure_unat)
  then show "((m, v, pattern, e, i + 1, if b then count + 1 else count), (m, v, pattern, e, i, count))
      \<in> measure (\<lambda>(m, v, pattern, e, i, count). unat (e - i))"
    by (simp add: diff_diff_eq add.commute)
qed simp

definition count_str :: "memory \<Rightarrow> string_ref \<Rightarrow> string_ref \<Rightarrow> error + size_t" where
  "count_str m v pattern =
     (let patternLen = len pattern
      in if patternLen > len v then Inr 0
         else count_str_loop m v pattern (len v - patternLen + 1) 0 0)"

subsection \<open>Splitting\<close>

definition split_char ::
  "memory \<Rightarrow> string_ref \<Rightarrow> char \<Rightarrow> error + string_ref \<times> string_ref" where
  "split_char m v sep =
     (case find_char m v sep 0 of
        Inl e \<Rightarrow> Inl e
      | Inr pos \<Rightarrow>
          Inr (if pos = npos then (v, string_ref_default)
               else (slice v 0 pos, slice v (pos + 1) (len v))))"

definition split_str ::
  "memory \<Rightarrow> string_ref \<Rightarrow> string_ref \<Rightarrow> error + string_ref \<times> string_ref" where
  "split_str m v sep =
     (case find_str m v sep of
        Inl e \<Rightarrow> Inl e
      | Inr pos \<Rightarrow>
          Inr (if pos = npos then (v, string_ref_default)
               else (slice v 0 pos, slice v (pos + size_ref sep) (len v))))"

definition rsplit_char ::
  "memory \<Rightarrow> string_ref \<Rightarrow> char \<Rightarrow> (error + string_ref \<times> string_ref) option" where
  "rsplit_char m v sep =
     (case rfind_char m v sep npos of
        None \<Rightarrow> None
      | Some (Inl e) \<Rightarrow> Some (Inl e)
      | Some (Inr pos) \<Rightarrow>
          Some (Inr (if pos = npos then (v, string_ref_default)
                     else (slice v 0 pos, slice v (pos + 1) (len v)))))"

definition rsplit_str ::
  "memory \<Rightarrow> string_ref \<Rightarrow> string_ref \<Rightarrow> error + string_ref \<times> string_ref" where
  "rsplit_str m v sep =
     (case rfind_str m v sep of
        Inl e \<Rightarrow> Inl e
      | Inr pos \<Rightarrow>
          Inr (if pos = npos then (v, string_ref_default)
               else (slice v 0 pos, slice v (pos + size_ref sep) (len v))))"


subsection \<open>Edit distance\<close>

definition bind_err :: "error + 'a \<Rightarrow> ('a \<Rightarrow> error + 'b) \<Rightarrow> error + 'b" where
  "bind_err r f = (case r of Inl e \<Rightarrow> Inl e | Inr x \<Rightarrow> f x)"

text \<open>
  \<open>std::vector<size_t>\<close> as a list; \<open>operator[]\<close> of a vector does not check its index,
  and an index outside the vector is an invalid access.
\<close>

definition vec_get :: "size_t list \<Rightarrow> size_t \<Rightarrow> error + size_t" where
  "vec_get xs j = (if unat j < length xs then Inr (xs ! unat j) else Inl InvalidAccess)"

definition vec_set :: "size_t list \<Rightarrow> size_t \<Rightarrow> size_t \<Rightarrow> error + size_t list" where
  "vec_set xs j x = (if unat j < length xs then Inr (xs[unat j := x]) else Inl InvalidAccess)"

text \<open>\<open>std::tolower\<close> in the "C" locale.\<close>

definition tolower :: "char \<Rightarrow> char" where
  "tolower c = (if CHR ''A'' \<le> c \<and> c \<le> CHR ''Z'' then char_of (of_char c + (32 :: nat)) else c)"

text \<open>\<open>for (size_t j = 1; j <= len2; j++) { dp[j] = j; }\<close>\<close>

partial_function (option) edit_init_loop ::
  "size_t \<Rightarrow> size_t list \<Rightarrow> size_t \<Rightarrow> (error + size_t list) option" where
  "edit_init_loop len2 dp j =
     (if j \<le> len2
      then (case vec_set dp j j of
              Inl e \<Rightarrow> Some (Inl e)
            | Inr dp \<Rightarrow> edit_init_loop len2 dp (j + 1))
      else Some (Inr dp))"

text \<open>The body of the inner loop: the new \<open>dp\<close> after the assignment to \<open>dp[j]\<close>.\<close>

definition edit_step ::
  "memory \<Rightarrow> string_ref \<Rightarrow> string_ref \<Rightarrow> bool \<Rightarrow> size_t \<Rightarrow> size_t \<Rightarrow> size_t list \<Rightarrow> size_t list
    \<Rightarrow> error + size_t list" where
  "edit_step m s1 s2 case_sensitive i j dpPrev dp =
     bind_err (at m s1 (i - 1)) (\<lambda>a.
     bind_err (at m s2 (j - 1)) (\<lambda>b.
       if (if case_sensitive then a = b else tolower a = tolower b)
       then bind_err (vec_get dpPrev (j - 1)) (\<lambda>d. vec_set dp j d)
       else bind_err (vec_get dpPrev (j - 1)) (\<lambda>d.
            bind_err (vec_get dp (j - 1)) (\<lambda>l.
            bind_err (vec_get dpPrev j) (\<lambda>u.
              vec_set dp j (min (d + 1) (min (l + 1) (u + 1))))))))"

partial_function (option) edit_inner_loop ::
  "memory \<Rightarrow> string_ref \<Rightarrow> string_ref \<Rightarrow> bool \<Rightarrow> size_t \<Rightarrow> size_t list \<Rightarrow> size_t list \<Rightarrow> size_t
    \<Rightarrow> (error + size_t list) option" where
  "edit_inner_loop m s1 s2 case_sensitive i dpPrev dp j =
     (if j \<le> len s2
      then (case edit_step m s1 s2 case_sensitive i j dpPrev dp of
              Inl e \<Rightarrow> Some (Inl e)
            | Inr dp \<Rightarrow> edit_inner_loop m s1 s2 case_sensitive i dpPrev dp (j + 1))
      else Some (Inr dp))"

text \<open>
  The outer loop: \<open>swap(dp, dpPrev); dp[0] = i;\<close>, the inner loop from \<open>j = 1\<close>, then
  \<open>i++\<close>.
\<close>

partial_function (option) edit_outer_loop ::
  "memory \<Rightarrow> string_ref \<Rightarrow> string_ref \<Rightarrow> bool \<Rightarrow> size_t list \<Rightarrow> size_t list \<Rightarrow> size_t
    \<Rightarrow> (error + size_t list) option" where
  "edit_outer_loop m s1 s2 case_sensitive dp dpPrev i =
     (if i \<le> len s1
      then (case vec_set dpPrev 0 i of
              Inl e \<Rightarrow> Some (Inl e)
            | Inr dp' \<Rightarrow>
                Option.bind (edit_inner_loop m s1 s2 case_sensitive i dp dp' 1)
                  (\<lambda>r. case r of
                          Inl e \<Rightarrow> Some (Inl e)
                        | Inr dp'' \<Rightarrow> edit_outer_loop m s1 s2 case_sensitive dp'' dp (i + 1)))
      else Some (Inr dp))"

definition edit_distance ::
  "memory \<Rightarrow> string_ref \<Rightarrow> string_ref \<Rightarrow> bool \<Rightarrow> (error + size_t) option" where
  "edit_distance m s1 s2 case_sensitive =
     (let len1 = size_ref s1; len2 = size_ref s2
      in if len1 = 0 \<or> len2 = 0 then Some (Inr (len1 + len2))
         else
           (let dp = replicate (unat (len2 + 1)) 0; dpPrev = replicate (unat (len2 + 1)) 0
            in Option.bind (edit_init_loop len2 dp 1)
                 (\<lambda>r. case r of
                         Inl e \<Rightarrow> Some (Inl e)
                       | Inr dp \<Rightarrow>
                           Option.bind (edit_outer_loop m s1 s2 case_sensitive dp dpPrev 1)
                             (\<lambda>r. case r of
                                     Inl e \<Rightarrow> Some (Inl e)
                                   | Inr dp \<Rightarrow> Some (vec_get dp len2)))))"


section \<open>Levenshtein distance\<close>

text \<open>
  The distance the edit distance is compared with: by recursion on both sequences, the
  cheapest of substituting (or keeping) the first character, deleting it, and inserting
  the first character of the target.
\<close>

fun levenshtein :: "'a list \<Rightarrow> 'a list \<Rightarrow> nat" where
  "levenshtein [] ys = length ys"
| "levenshtein xs [] = length xs"
| "levenshtein (x # xs) (y # ys) =
     min (levenshtein xs ys + (if x = y then 0 else 1))
       (min (levenshtein xs (y # ys) + 1) (levenshtein (x # xs) ys + 1))"

text \<open>
  \<open>edits n xs ys\<close>: \<open>n\<close> single-character insertions, deletions and substitutions turn
  \<open>xs\<close> into \<open>ys\<close>.
\<close>

inductive edits :: "nat \<Rightarrow> 'a list \<Rightarrow> 'a list \<Rightarrow> bool" where
  finished: "edits 0 [] []"
| keep: "edits n xs ys \<Longrightarrow> edits n (x # xs) (x # ys)"
| substitute: "edits n xs ys \<Longrightarrow> edits (Suc n) (x # xs) (y # ys)"
| delete: "edits n xs ys \<Longrightarrow> edits (Suc n) (x # xs) ys"
| insert: "edits n xs ys \<Longrightarrow> edits (Suc n) xs (y # ys)"

text \<open>Row \<open>i\<close> of the table of distances between the prefixes of \<open>xs\<close> and \<open>ys\<close>.\<close>

definition distance_row :: "char list \<Rightarrow> char list \<Rightarrow> nat \<Rightarrow> size_t list" where
  "distance_row xs ys i =
     map (\<lambda>j. of_nat (levenshtein (take i xs) (take j ys))) [0..<Suc (length ys)]"

section \<open>Properties\<close>

subsection \<open>Words and memory ranges\<close>

lemma unat_min: "unat (min a b) = min (unat a) (unat (b :: size_t))"
  by (simp add: min_def word_le_nat_alt)

lemma unat_max: "unat (max a b) = max (unat a) (unat (b :: size_t))"
  by (simp add: max_def word_le_nat_alt)

lemma length_read_bytes [simp]: "length (read_bytes m p n) = n"
  by (simp add: read_bytes_def)

lemma length_chars [simp]: "length (chars m v) = unat (len v)"
  by (simp add: chars_def)

lemma read_bytes_offset:
  "unat a + n \<le> L \<Longrightarrow> read_bytes m (p + a) n = take n (drop (unat a) (read_bytes m p L))"
  by (rule nth_equalityI) (simp_all add: read_bytes_def ac_simps)

text \<open>Unfolding a range from its first address, for evaluation on concrete memories.\<close>

lemma range_mapped_0: "range_mapped m p 0"
  by (simp add: range_mapped_def)

lemma range_mapped_Suc:
  "range_mapped m p (Suc n) \<longleftrightarrow> m p \<noteq> None \<and> range_mapped m (p + 1) n"
proof -
  let ?P = "\<lambda>i. m (p + of_nat i) \<noteq> None"
  have eq: "[0..<Suc n] = 0 # map Suc [0..<n]"
    by (simp only: map_Suc_upt) (simp add: upt_conv_Cons)
  have "list_all ?P [0..<Suc n] = list_all ?P (0 # map Suc [0..<n])"
    by (simp only: eq)
  also have "\<dots> \<longleftrightarrow> ?P 0 \<and> list_all (\<lambda>i. ?P (Suc i)) [0..<n]"
    by (simp add: list.pred_map comp_def)
  also have "\<dots> \<longleftrightarrow> m p \<noteq> None \<and> list_all (\<lambda>i. m (p + 1 + of_nat i) \<noteq> None) [0..<n]"
    by (simp add: ac_simps)
  finally show ?thesis
    by (simp only: range_mapped_def)
qed

lemma read_bytes_0: "read_bytes m p 0 = []"
  by (simp add: read_bytes_def)

lemma read_bytes_Suc: "read_bytes m p (Suc n) = the (m p) # read_bytes m (p + 1) n"
  unfolding read_bytes_def by (simp only: map_upt_Suc) (simp add: ac_simps)

lemma range_mapped_unfold:
  "range_mapped m p n \<longleftrightarrow> (if n = 0 then True else m p \<noteq> None \<and> range_mapped m (p + 1) (n - 1))"
  by (cases n) (simp_all add: range_mapped_0 range_mapped_Suc)

lemma read_bytes_unfold:
  "read_bytes m p n = (if n = 0 then [] else the (m p) # read_bytes m (p + 1) (n - 1))"
  by (cases n) (simp_all add: read_bytes_0 read_bytes_Suc)

lemmas mem_eval = store_cstr_def no_memory_def nullptr_def NUL_def readable_def chars_def
  range_mapped_unfold read_bytes_unfold

lemma take_drop_clamp:
  "take (min n (length xs - min s (length xs))) (drop (min s (length xs)) xs) = take n (drop s xs)"
proof (cases "s \<le> length xs")
  case True
  then have "min s (length xs) = s" by simp
  moreover have "take (min n (length xs - s)) (drop s xs) = take n (drop s xs)"
    by (simp add: min_def)
  ultimately show ?thesis by simp
next
  case False
  then show ?thesis by simp
qed

lemma substr_chars: "chars m (substr v s n) = take (unat n) (drop (unat s) (chars m v))"
proof -
  let ?s = "min s (len v)"
  have le: "?s \<le> len v" by simp
  have 1: "unat (min n (len v - ?s)) = min (unat n) (unat (len v) - unat ?s)"
    using le by (simp add: unat_min unat_sub)
  have 2: "unat ?s = min (unat s) (length (chars m v))"
    by (simp add: unat_min)
  have "chars m (substr v s n) = take (unat (min n (len v - ?s))) (drop (unat ?s) (chars m v))"
    unfolding chars_def substr_def Let_def using le
    by (simp add: read_bytes_offset[where L="unat (len v)"] 1 word_le_nat_alt)
  also have "\<dots> = take (min (unat n) (length (chars m v) - min (unat s) (length (chars m v))))
        (drop (min (unat s) (length (chars m v))) (chars m v))"
    unfolding 1 2 by simp
  also have "\<dots> = take (unat n) (drop (unat s) (chars m v))"
    by (rule take_drop_clamp)
  finally show ?thesis .
qed

lemma slice_eq:
  "slice v s e = \<lparr>ps = ps v + min (min s e) (len v),
      len = min (max s e) (len v) - min (min s e) (len v)\<rparr>"
  by (auto simp: slice_def Let_def min_def max_def)

lemma slice_as_substr:
  "slice v s e = substr v (min s e) (min (max s e) (len v) - min (min s e) (len v))"
proof -
  have "min (max s e) (len v) - min (min s e) (len v) \<le> len v - min (min s e) (len v)"
    by (simp add: word_le_nat_alt unat_sub unat_min unat_max min.coboundedI1 diff_le_mono)
  then show ?thesis
    by (simp add: slice_eq substr_def Let_def min_absorb1)
qed

lemma slice_chars:
  "chars m (slice v s e) =
     take (unat (max s e) - unat (min s e)) (drop (unat (min s e)) (chars m v))"
proof -
  let ?lo = "min s e" and ?hi = "max s e"
  let ?xs = "chars m v"
  have lohi: "unat ?lo \<le> unat ?hi"
    by (simp add: unat_min unat_max)
  have n: "unat (min ?hi (len v) - min ?lo (len v)) =
      min (unat ?hi) (length ?xs) - min (unat ?lo) (length ?xs)"
    using lohi by (subst unat_sub) (simp_all add: word_le_nat_alt unat_min min.coboundedI1)
  have "chars m (slice v s e) = take (min (unat ?hi) (length ?xs) - min (unat ?lo) (length ?xs))
      (drop (unat ?lo) ?xs)"
    by (simp only: slice_as_substr substr_chars n)
  also have "\<dots> = take (unat ?hi - unat ?lo) (drop (unat ?lo) ?xs)"
  proof (cases "unat ?hi \<le> length ?xs")
    case True
    with lohi show ?thesis by (simp add: min_absorb1)
  next
    case False
    then show ?thesis by (simp add: min_def)
  qed
  finally show ?thesis .
qed

subsection \<open>Slicing\<close>

text \<open>
  C7. \<open>slice(start, end)\<close> is the view from the smaller to the larger argument, both
  clamped to the length: swapping the arguments first and clamping afterwards. Its
  characters are those of the original at the positions from the smaller argument up to,
  not including, the larger one. So the order of the arguments does not matter, and
  \<open>slice(i, i)\<close> is empty.
\<close>

theorem slice_swaps_then_clamps:
  "slice v start end =
     \<lparr>ps = ps v + min (min start end) (len v),
      len = min (max start end) (len v) - min (min start end) (len v)\<rparr> \<and>
   chars m (slice v start end) =
     take (unat (max start end) - unat (min start end)) (drop (unat (min start end)) (chars m v)) \<and>
   slice v start end = slice v end start \<and>
   empty_ref (slice v i i)"
  by (simp add: slice_chars) (simp add: slice_eq empty_ref_def min.commute max.commute)

text \<open>
  C8. \<open>substr(start, count)\<close> starts at \<open>start\<close> clamped to the length and keeps at most
  \<open>count\<close> characters, no more than remain: its characters are the first \<open>count\<close> of the
  original after dropping \<open>start\<close>. With the default count (\<open>capacity\<close>, the largest
  \<open>size_t\<close>) everything from \<open>start\<close> on is kept, \<open>substr(0)\<close> is the original view,
  and \<open>string_ref("abc").substr(2, 4)\<close> is \<open>"c"\<close>.
\<close>

theorem substr_clamps:
  "substr v start count =
     \<lparr>ps = ps v + min start (len v), len = min count (len v - min start (len v))\<rparr> \<and>
   chars m (substr v start count) = take (unat count) (drop (unat start) (chars m v)) \<and>
   chars m (substr v start capacity) = drop (unat start) (chars m v) \<and>
   substr v 0 capacity = v \<and>
   string_ref_cstr (store_cstr 0x1000 ''abc'' no_memory) 0x1000 = Inr \<lparr>ps = 0x1000, len = 3\<rparr> \<and>
   chars (store_cstr 0x1000 ''abc'' no_memory) (substr \<lparr>ps = 0x1000, len = 3\<rparr> 2 4) = ''c''"
proof -
  have max: "n \<le> capacity" for n
    by (simp add: capacity_def npos_def)
  have "unat (len v) - unat start \<le> unat capacity"
    using max [of "len v"] by (simp add: word_le_nat_alt)
  then have 1: "chars m (substr v start capacity) = drop (unat start) (chars m v)"
    by (simp add: substr_chars)
  have 2: "substr v 0 capacity = v"
    by (simp add: substr_def Let_def min_absorb2 max)
  have 3: "string_ref_cstr (store_cstr 0x1000 ''abc'' no_memory) 0x1000 = Inr \<lparr>ps = 0x1000, len = 3\<rparr>"
    by (simp add: string_ref_cstr_def strlen_def store_cstr_def no_memory_def load_def
        nullptr_def NUL_def)
  have 4: "chars (store_cstr 0x1000 ''abc'' no_memory) (substr \<lparr>ps = 0x1000, len = 3\<rparr> 2 4) = ''c''"
    by (simp add: chars_def substr_def read_bytes_def store_cstr_def no_memory_def)
  show ?thesis
    using 1 2 3 4 by (simp add: substr_chars) (simp add: substr_def Let_def)
qed

text \<open>
  C9. \<open>drop_front(0)\<close> and \<open>drop_back(0)\<close> return the view itself. For \<open>n\<close> up to the
  length, \<open>drop_front(n)\<close> and \<open>drop_back(n)\<close> remove exactly \<open>n\<close> characters from the
  front and from the back. For \<open>n\<close> above the length both fail their assertion, where
  \<open>substr\<close>, \<open>take_front\<close> and \<open>take_back\<close> clamp.
\<close>

theorem drop_exact_or_assert:
  "drop_front v 0 = Inr v \<and> drop_back v 0 = Inr v \<and>
   (n \<le> len v \<longrightarrow>
      drop_front v n = Inr \<lparr>ps = ps v + n, len = len v - n\<rparr> \<and>
      drop_back v n = Inr \<lparr>ps = ps v, len = len v - n\<rparr> \<and>
      chars m \<lparr>ps = ps v + n, len = len v - n\<rparr> = drop (unat n) (chars m v) \<and>
      chars m \<lparr>ps = ps v, len = len v - n\<rparr> = take (unat (len v) - unat n) (chars m v)) \<and>
   (n > len v \<longrightarrow>
      drop_front v n = Inl AssertionFailed \<and> drop_back v n = Inl AssertionFailed \<and>
      substr v n k = \<lparr>ps = ps v + len v, len = 0\<rparr> \<and> take_front v n = v \<and> take_back v n = Inr v)"
proof -
  have max: "x \<le> capacity" for x
    by (simp add: capacity_def npos_def)
  have zero: "drop_front v 0 = Inr v \<and> drop_back v 0 = Inr v"
    by (simp add: drop_front_def drop_back_def substr_def Let_def min_absorb2 max)
  have le: "drop_front v n = Inr \<lparr>ps = ps v + n, len = len v - n\<rparr> \<and>
      drop_back v n = Inr \<lparr>ps = ps v, len = len v - n\<rparr> \<and>
      chars m \<lparr>ps = ps v + n, len = len v - n\<rparr> = drop (unat n) (chars m v) \<and>
      chars m \<lparr>ps = ps v, len = len v - n\<rparr> = take (unat (len v) - unat n) (chars m v)"
    if "n \<le> len v"
  proof -
    have f: "substr v n capacity = \<lparr>ps = ps v + n, len = len v - n\<rparr>"
      using that by (simp add: substr_def Let_def min_absorb1 min_absorb2 max)
    have b: "substr v 0 (len v - n) = \<lparr>ps = ps v, len = len v - n\<rparr>"
      using that by (simp add: substr_def Let_def min_absorb1 word_le_nat_alt unat_sub)
    have "unat (len v) - unat n \<le> unat capacity"
      using max [of "len v"] by (simp add: word_le_nat_alt)
    then have cf: "chars m (substr v n capacity) = drop (unat n) (chars m v)"
      by (simp add: substr_chars)
    have cb: "chars m (substr v 0 (len v - n)) = take (unat (len v) - unat n) (chars m v)"
      using that by (simp add: substr_chars unat_sub)
    show ?thesis
      using that cf cb by (simp add: drop_front_def drop_back_def f b)
  qed
  have gt: "drop_front v n = Inl AssertionFailed \<and> drop_back v n = Inl AssertionFailed \<and>
      substr v n k = \<lparr>ps = ps v + len v, len = 0\<rparr> \<and> take_front v n = v \<and> take_back v n = Inr v"
    if "n > len v"
    using that
    by (simp add: drop_front_def drop_back_def take_front_def take_back_def substr_def Let_def
        min_absorb2 not_le)
  show ?thesis
    using zero le gt by blast
qed

theorem drop_exact_or_assert_witness:
  "(2 :: size_t) \<le> len \<lparr>ps = 0x1000, len = 3\<rparr> \<and>
   drop_front \<lparr>ps = 0x1000, len = 3\<rparr> 2 = Inr \<lparr>ps = 0x1002, len = 1\<rparr> \<and>
   drop_back \<lparr>ps = 0x1000, len = 3\<rparr> 2 = Inr \<lparr>ps = 0x1000, len = 1\<rparr> \<and>
   (5 :: size_t) > len \<lparr>ps = 0x1000, len = 3\<rparr> \<and>
   drop_front \<lparr>ps = 0x1000, len = 3\<rparr> 5 = Inl AssertionFailed \<and>
   drop_back \<lparr>ps = 0x1000, len = 3\<rparr> 5 = Inl AssertionFailed"
  using drop_exact_or_assert [of "\<lparr>ps = 0x1000, len = 3\<rparr>" 2 no_memory 0]
    drop_exact_or_assert [of "\<lparr>ps = 0x1000, len = 3\<rparr>" 5 no_memory 0]
  by simp

subsection \<open>Construction from a null pointer\<close>

text \<open>
  C10. The constructor \<open>string_ref(const char *)\<close> accepts a pointer that is null at run
  time and yields the empty view \<open>(nullptr, 0)\<close>; \<open>withNullAsEmpty\<close> yields the empty view
  at the literal \<open>""\<close>. Both have length 0.
\<close>

theorem null_pointer_gives_empty_view:
  assumes "m empty_literal = Some NUL"
  shows "string_ref_cstr m nullptr = Inr \<lparr>ps = nullptr, len = 0\<rparr> \<and>
    withNullAsEmpty m empty_literal nullptr = Inr \<lparr>ps = empty_literal, len = 0\<rparr> \<and>
    empty_ref \<lparr>ps = nullptr, len = 0\<rparr> \<and> empty_ref \<lparr>ps = empty_literal, len = 0\<rparr>"
  using assms
  by (simp add: string_ref_cstr_def withNullAsEmpty_def strlen_def load_def empty_ref_def)

theorem null_pointer_gives_empty_view_witness:
  "store_cstr 0x3000 [] no_memory 0x3000 = Some NUL \<and>
   string_ref_cstr (store_cstr 0x3000 [] no_memory) nullptr = Inr \<lparr>ps = nullptr, len = 0\<rparr> \<and>
   withNullAsEmpty (store_cstr 0x3000 [] no_memory) 0x3000 nullptr = Inr \<lparr>ps = 0x3000, len = 0\<rparr>"
proof -
  have h: "store_cstr 0x3000 [] no_memory 0x3000 = Some NUL"
    by (simp add: store_cstr_def)
  show ?thesis
    using h null_pointer_gives_empty_view [of "store_cstr 0x3000 [] no_memory" "0x3000"] by simp
qed

subsection \<open>Equality and order\<close>

lemma range_mapped_le: "range_mapped m p L \<Longrightarrow> n \<le> L \<Longrightarrow> range_mapped m p n"
  by (simp add: range_mapped_def list_all_iff)

lemma read_bytes_take: "n \<le> L \<Longrightarrow> read_bytes m p n = take n (read_bytes m p L)"
  by (simp add: read_bytes_def take_map)

lemma memCompare_chars:
  assumes "readable m a" and "readable m b" and "n \<le> len a" and "n \<le> len b"
  shows "memCompare m (ps a) (ps b) n =
    Inr (memcmp_bytes (take (unat n) (chars m a)) (take (unat n) (chars m b)))"
proof (cases "n = 0")
  case True
  then show ?thesis by (simp add: memCompare_def)
next
  case False
  have na: "unat n \<le> unat (len a)" and nb: "unat n \<le> unat (len b)"
    using assms(3,4) by (simp_all add: word_le_nat_alt)
  have "range_mapped m (ps a) (unat n)" "range_mapped m (ps b) (unat n)"
    using assms(1,2) na nb by (auto simp: readable_def intro: range_mapped_le)
  moreover have "read_bytes m (ps a) (unat n) = take (unat n) (chars m a)"
    unfolding chars_def using na by (rule read_bytes_take)
  moreover have "read_bytes m (ps b) (unat n) = take (unat n) (chars m b)"
    unfolding chars_def using nb by (rule read_bytes_take)
  ultimately show ?thesis
    using False by (simp add: memCompare_def memcmp_def)
qed

lemma memcmp_bytes_eq_iff:
  "length xs = length ys \<Longrightarrow> memcmp_bytes xs ys = 0 \<longleftrightarrow> xs = ys"
proof (induction xs ys rule: list_induct2)
  case Nil
  then show ?case by simp
next
  case (Cons x xs y ys)
  have "int (of_char x) - int (of_char y) = 0 \<longleftrightarrow> x = y"
    by simp
  with Cons show ?case by auto
qed

text \<open>
  The result of \<open>compare\<close> on the characters alone, and its agreement with the
  lexicographic order of byte strings.
\<close>

lemma three_way_lex:
  "(let r = memcmp_bytes (take (min (length xs) (length ys)) xs)
              (take (min (length xs) (length ys)) ys)
    in if r \<noteq> 0 then (if r < 0 then - 1 else 1)
       else if length xs = length ys then 0
       else if length xs < length ys then - 1 else (1 :: int)) =
   (if xs < ys then - 1 else if xs = ys then 0 else 1)"
  (is "?code xs ys = ?order xs ys")
proof (induction xs arbitrary: ys)
  case Nil
  then show ?case by (cases ys) simp_all
next
  case (Cons x xs)
  show ?case
  proof (cases ys)
    case Nil
    then show ?thesis by simp
  next
    case ys: (Cons y ys')
    show ?thesis
    proof (cases "x = y")
      case True
      have "?code (x # xs) (y # ys') = ?code xs ys'"
        using True by (simp add: Let_def split del: if_split cong: if_cong)
      also have "\<dots> = ?order xs ys'"
        by (rule Cons.IH)
      also have "\<dots> = ?order (x # xs) (y # ys')"
        using True by (simp split del: if_split cong: if_cong)
      finally show ?thesis
        by (simp only: ys)
    next
      case False
      then have "(of_char x :: nat) \<noteq> of_char y"
        by simp
      moreover have "int (of_char x) - int (of_char y) < 0 \<longleftrightarrow> x < y"
        by (simp add: less_char_def)
      ultimately show ?thesis
        using False ys by (simp add: Let_def)
    qed
  qed
qed

lemma equals_chars:
  assumes "readable m a" and "readable m b"
  shows "equals m a b = Inr (chars m a = chars m b)"
proof (cases "len a = len b")
  case True
  then have "length (chars m a) = length (chars m b)"
    by simp
  then have "memcmp_bytes (chars m a) (chars m b) = 0 \<longleftrightarrow> chars m a = chars m b"
    by (rule memcmp_bytes_eq_iff)
  then show ?thesis
    using True memCompare_chars [OF assms, of "len a"] by (simp add: equals_def)
next
  case False
  then have "length (chars m a) \<noteq> length (chars m b)"
    by (simp add: word_unat_eq_iff)
  then have "chars m a \<noteq> chars m b"
    by (auto dest: arg_cong [where f = length])
  with False show ?thesis
    by (simp add: equals_def)
qed

lemma compare_chars:
  assumes "readable m a" and "readable m b"
  shows "compare m a b =
    Inr (if chars m a < chars m b then - 1 else if chars m a = chars m b then 0 else 1)"
proof -
  let ?n = "min (len a) (len b)"
  have n: "unat ?n = min (length (chars m a)) (length (chars m b))"
    by (simp add: unat_min)
  have leq: "len a = len b \<longleftrightarrow> length (chars m a) = length (chars m b)"
    by (simp add: word_unat_eq_iff)
  have lless: "len a < len b \<longleftrightarrow> length (chars m a) < length (chars m b)"
    by (simp add: word_less_nat_alt)
  have "memCompare m (ps a) (ps b) ?n =
      Inr (memcmp_bytes (take (unat ?n) (chars m a)) (take (unat ?n) (chars m b)))"
    by (rule memCompare_chars [OF assms]) simp_all
  then have "compare m a b =
      Inr (let r = memcmp_bytes (take (min (length (chars m a)) (length (chars m b))) (chars m a))
                     (take (min (length (chars m a)) (length (chars m b))) (chars m b))
           in if r \<noteq> 0 then (if r < 0 then - 1 else 1)
              else if length (chars m a) = length (chars m b) then 0
              else if length (chars m a) < length (chars m b) then - 1 else 1)"
    unfolding compare_def n leq lless by (simp add: Let_def)
  then show ?thesis
    by (simp only: three_way_lex)
qed

text \<open>
  C6. For views whose characters can be read, \<open>compare\<close> is the three-way comparison of
  the character sequences in the lexicographic order of unsigned bytes, a linear order,
  and \<open>equals\<close> is their equality. So \<open>compare\<close> returns 0 exactly when \<open>equals\<close> and
  \<open>==\<close> return true, swapping the arguments negates the result, \<open><=\<close> is transitive and
  total, and each of the six operators is the corresponding relation of that order.
\<close>

theorem compare_total_order:
  assumes "readable m a" and "readable m b" and "readable m c"
  shows "compare m a b =
      Inr (if chars m a < chars m b then - 1 else if chars m a = chars m b then 0 else 1) \<and>
    equals m a b = Inr (chars m a = chars m b) \<and>
    (compare m a b = Inr 0 \<longleftrightarrow> equals m a b = Inr True) \<and>
    (equals m a b = Inr True \<longleftrightarrow> op_eq m a b = Inr True) \<and>
    (\<exists>r. compare m a b = Inr r \<and> compare m b a = Inr (- r)) \<and>
    (op_le m a b = Inr True \<and> op_le m b a = Inr True \<longrightarrow> op_eq m a b = Inr True) \<and>
    (op_le m a b = Inr True \<and> op_le m b c = Inr True \<longrightarrow> op_le m a c = Inr True) \<and>
    (op_le m a b = Inr True \<or> op_le m b a = Inr True) \<and>
    op_eq m a b = Inr (chars m a = chars m b) \<and>
    op_ne m a b = Inr (chars m a \<noteq> chars m b) \<and>
    op_lt m a b = Inr (chars m a < chars m b) \<and>
    op_le m a b = Inr (chars m a \<le> chars m b) \<and>
    op_gt m a b = Inr (chars m a > chars m b) \<and>
    op_ge m a b = Inr (chars m a \<ge> chars m b)"
proof -
  note cmp = compare_chars [OF assms(1,2)] compare_chars [OF assms(2,1)]
    compare_chars [OF assms(2,3)] compare_chars [OF assms(1,3)]
  note eq = equals_chars [OF assms(1,2)]
  have le: "op_le m x y = Inr (chars m x \<le> chars m y)"
    if "compare m x y =
      Inr (if chars m x < chars m y then - 1 else if chars m x = chars m y then 0 else 1)"
    for x y
    using that by (auto simp: op_le_def)
  have 1: "compare m a b = Inr 0 \<longleftrightarrow> equals m a b = Inr True"
    by (simp add: cmp eq)
  have 2: "\<exists>r. compare m a b = Inr r \<and> compare m b a = Inr (- r)"
    by (auto simp: cmp)
  have 3: "op_le m a b = Inr True \<and> op_le m b c = Inr True \<longrightarrow> op_le m a c = Inr True"
    by (auto simp: le cmp)
  have 4: "op_le m a b = Inr True \<or> op_le m b a = Inr True"
    by (auto simp: le cmp)
  have 5: "op_le m a b = Inr True \<and> op_le m b a = Inr True \<longrightarrow> op_eq m a b = Inr True"
    by (auto simp: le cmp op_eq_def eq)
  have 6: "op_lt m a b = Inr (chars m a < chars m b)" "op_gt m a b = Inr (chars m a > chars m b)"
    "op_ge m a b = Inr (chars m a \<ge> chars m b)"
    by (auto simp: op_lt_def op_gt_def op_ge_def cmp)
  have 7: "op_ne m a b = Inr (chars m a \<noteq> chars m b)"
    by (simp add: op_ne_def eq)
  show ?thesis
    using 1 2 3 4 5 6 7 cmp(1) eq le [OF cmp(1)] by (simp add: op_eq_def)
qed

theorem compare_total_order_witness:
  "readable (store_cstr 0x1000 ''abc'' (store_cstr 0x2000 ''abd'' (store_cstr 0x3000 ''abdc'' no_memory)))
     \<lparr>ps = 0x1000, len = 3\<rparr> \<and>
   readable (store_cstr 0x1000 ''abc'' (store_cstr 0x2000 ''abd'' (store_cstr 0x3000 ''abdc'' no_memory)))
     \<lparr>ps = 0x2000, len = 3\<rparr> \<and>
   readable (store_cstr 0x1000 ''abc'' (store_cstr 0x2000 ''abd'' (store_cstr 0x3000 ''abdc'' no_memory)))
     \<lparr>ps = 0x3000, len = 4\<rparr> \<and>
   compare (store_cstr 0x1000 ''abc'' (store_cstr 0x2000 ''abd'' (store_cstr 0x3000 ''abdc'' no_memory)))
     \<lparr>ps = 0x1000, len = 3\<rparr> \<lparr>ps = 0x2000, len = 3\<rparr> = Inr (- 1) \<and>
   equals (store_cstr 0x1000 ''abc'' (store_cstr 0x2000 ''abd'' (store_cstr 0x3000 ''abdc'' no_memory)))
     \<lparr>ps = 0x1000, len = 3\<rparr> \<lparr>ps = 0x2000, len = 3\<rparr> = Inr False \<and>
   op_le (store_cstr 0x1000 ''abc'' (store_cstr 0x2000 ''abd'' (store_cstr 0x3000 ''abdc'' no_memory)))
     \<lparr>ps = 0x1000, len = 3\<rparr> \<lparr>ps = 0x2000, len = 3\<rparr> = Inr True \<and>
   op_le (store_cstr 0x1000 ''abc'' (store_cstr 0x2000 ''abd'' (store_cstr 0x3000 ''abdc'' no_memory)))
     \<lparr>ps = 0x2000, len = 3\<rparr> \<lparr>ps = 0x3000, len = 4\<rparr> = Inr True \<and>
   op_le (store_cstr 0x1000 ''abc'' (store_cstr 0x2000 ''abd'' (store_cstr 0x3000 ''abdc'' no_memory)))
     \<lparr>ps = 0x1000, len = 3\<rparr> \<lparr>ps = 0x3000, len = 4\<rparr> = Inr True"
proof -
  let ?M = "store_cstr 0x1000 ''abc'' (store_cstr 0x2000 ''abd'' (store_cstr 0x3000 ''abdc'' no_memory))"
  have a: "readable ?M \<lparr>ps = 0x1000, len = 3\<rparr>" and b: "readable ?M \<lparr>ps = 0x2000, len = 3\<rparr>"
    and c: "readable ?M \<lparr>ps = 0x3000, len = 4\<rparr>"
    by (simp_all add: mem_eval)
  have ca: "chars ?M \<lparr>ps = 0x1000, len = 3\<rparr> = ''abc''"
    and cb: "chars ?M \<lparr>ps = 0x2000, len = 3\<rparr> = ''abd''"
    and cc: "chars ?M \<lparr>ps = 0x3000, len = 4\<rparr> = ''abdc''"
    by (simp_all add: mem_eval)
  have lt: "''abc'' < ''abd''" "''abd'' < ''abdc''" "''abc'' < ''abdc''"
    by (simp_all add: less_char_def)
  show ?thesis
    using a b c compare_total_order [OF a b c] compare_total_order [OF b c a] lt
    unfolding ca cb cc by (simp add: less_imp_le)
qed

subsection \<open>Counting occurrences of a pattern\<close>

lemma readable_len_bound:
  assumes "readable m v"
  shows "unat (len v) < 2 ^ 64 - 1"
proof (cases "len v = 0")
  case True
  then show ?thesis by simp
next
  case False
  with assms have "ps v \<noteq> 0"
    by (simp add: readable_def nullptr_def)
  then have "unat (ps v) \<noteq> 0"
    by (simp add: unat_eq_zero)
  with assms show ?thesis
    by (simp add: readable_def)
qed

lemma range_mapped_nth: "range_mapped m p n \<Longrightarrow> i < n \<Longrightarrow> m (p + of_nat i) \<noteq> None"
  by (simp add: range_mapped_def list_all_iff)

lemma readable_substr:
  assumes "readable m v"
  shows "readable m (substr v s n)"
proof -
  let ?s = "min s (len v)"
  let ?n = "min n (len v - ?s)"
  have s: "unat ?s \<le> unat (len v)"
    by (simp add: unat_min)
  have n: "unat ?n \<le> unat (len v) - unat ?s"
    by (simp add: unat_min unat_sub min.coboundedI2)
  have nowrap: "unat (ps v) + unat (len v) < 2 ^ 64"
    using assms by (simp add: readable_def)
  have ps: "unat (ps v + ?s) = unat (ps v) + unat ?s"
    using s nowrap by (simp add: unat_add_lem [THEN iffD1])
  have 1: "unat (ps v + ?s) + unat ?n < 2 ^ 64"
    using ps s n nowrap by linarith
  have 2: "ps v + ?s \<noteq> nullptr \<or> ?n = 0"
  proof (cases "len v = 0")
    case True
    then show ?thesis by simp
  next
    case False
    with assms have "unat (ps v) \<noteq> 0"
      by (simp add: readable_def nullptr_def unat_eq_zero)
    with ps have "unat (ps v + ?s) \<noteq> 0"
      by simp
    then show ?thesis
      by (auto simp: nullptr_def)
  qed
  have 3: "range_mapped m (ps v + ?s) (unat ?n)"
    unfolding range_mapped_def list_all_iff
  proof
    fix i assume "i \<in> set [0..<unat ?n]"
    then have "unat ?s + i < unat (len v)"
      using n s by simp
    moreover have "range_mapped m (ps v) (unat (len v))"
      using assms by (simp add: readable_def)
    ultimately have "m (ps v + of_nat (unat ?s + i)) \<noteq> None"
      by (rule range_mapped_nth [rotated])
    then show "m (ps v + ?s + of_nat i) \<noteq> None"
      by (simp add: ac_simps)
  qed
  show ?thesis
    using 1 2 3 by (simp add: readable_def substr_def Let_def)
qed

declare count_str_loop.simps [simp del]

lemma count_str_loop_counts:
  assumes "readable m v" and "readable m p" and "len p \<le> len v"
    and "E = unat (len v) - unat (len p) + 1" and "k \<le> E"
  shows "count_str_loop m v p (of_nat E) (of_nat k) c =
    Inr (c + of_nat (length (filter (\<lambda>i. take (unat (len p)) (drop i (chars m v)) = chars m p) [k..<E])))"
  using assms(5)
proof (induction "E - k" arbitrary: k c)
  case 0
  then have "k = E" by simp
  then show ?case
    by (simp add: count_str_loop.simps)
next
  case (Suc d)
  let ?match = "\<lambda>i. take (unat (len p)) (drop i (chars m v)) = chars m p"
  have E: "E < 2 ^ 64"
    using readable_len_bound [OF assms(1)] assms(4) by simp
  from Suc.hyps(2) have k: "k < E" by simp
  then have ne: "(of_nat k :: size_t) \<noteq> of_nat E"
    using E by (simp add: word_of_nat_eq_iff take_bit_nat_eq_self)
  have uk: "unat (of_nat k :: size_t) = k"
    using k E by (simp add: unat_of_nat)
  have "equals m (substr v (of_nat k) (len p)) p =
      Inr (chars m (substr v (of_nat k) (len p)) = chars m p)"
    by (rule equals_chars [OF readable_substr [OF assms(1)] assms(2)])
  then have eq: "equals m (substr v (of_nat k) (len p)) p = Inr (?match k)"
    by (simp add: substr_chars uk)
  have "count_str_loop m v p (of_nat E) (of_nat k) c =
      count_str_loop m v p (of_nat E) (of_nat (Suc k)) (if ?match k then c + 1 else c)"
    using ne eq by (subst count_str_loop.simps) (simp add: add.commute)
  also have "\<dots> = Inr ((if ?match k then c + 1 else c) + of_nat (length (filter ?match [Suc k..<E])))"
    using Suc.hyps(2) k by (intro Suc.hyps(1)) simp_all
  also have "\<dots> = Inr (c + of_nat (length (filter ?match [k..<E])))"
    using k by (simp add: upt_conv_Cons)
  finally show ?case .
qed

text \<open>
  C5. For a pattern no longer than the view, both readable, \<open>count_str\<close> returns the
  number of positions \<open>i\<close> with \<open>i + length pattern \<le> length view\<close> at which the
  characters of the view, from \<open>i\<close> on, start with the pattern. Every position is tested,
  so occurrences that overlap are all counted.
\<close>

theorem count_str_counts_every_position:
  assumes "readable m v" and "readable m p" and "len p \<le> len v"
  shows "count_str m v p =
      Inr (of_nat (card {i. i + length (chars m p) \<le> length (chars m v) \<and>
                          take (length (chars m p)) (drop i (chars m v)) = chars m p})) \<and>
    card {i. i + length (chars m p) \<le> length (chars m v) \<and>
             take (length (chars m p)) (drop i (chars m v)) = chars m p} < 2 ^ 64"
proof -
  let ?match = "\<lambda>i. take (unat (len p)) (drop i (chars m v)) = chars m p"
  let ?E = "unat (len v) - unat (len p) + 1"
  have le: "unat (len p) \<le> unat (len v)"
    using assms(3) by (simp add: word_le_nat_alt)
  have E: "?E < 2 ^ 64"
    using readable_len_bound [OF assms(1)] by simp
  have e: "len v - len p + 1 = of_nat ?E"
    using le by simp
  have set: "{i. i + unat (len p) \<le> unat (len v) \<and> ?match i} = {i. i < ?E \<and> ?match i}"
    using le by auto
  have "{i. i < length [0..<?E] \<and> ?match ([0..<?E] ! i)} = {i. i < ?E \<and> ?match i}"
    by (auto simp del: upt_Suc)
  then have "length (filter ?match [0..<?E]) = card {i. i < ?E \<and> ?match i}"
    by (simp only: length_filter_conv_card)
  then have card: "card {i. i + unat (len p) \<le> unat (len v) \<and> ?match i} =
      length (filter ?match [0..<?E])"
    by (simp only: set)
  have "length (filter ?match [0..<?E]) \<le> ?E"
    using length_filter_le [of ?match "[0..<?E]"] by simp
  then have bound: "length (filter ?match [0..<?E]) < 2 ^ 64"
    using E by simp
  have "count_str m v p = count_str_loop m v p (of_nat ?E) (of_nat 0) 0"
    using assms(3) by (simp add: count_str_def Let_def e not_less [symmetric])
  also have "\<dots> = Inr (0 + of_nat (length (filter ?match [0..<?E])))"
    by (rule count_str_loop_counts [OF assms refl]) simp
  finally show ?thesis
    using bound by (simp add: card)
qed

theorem count_str_counts_every_position_witness:
  "readable (store_cstr 0x1000 ''aaa'' (store_cstr 0x2000 ''aa'' no_memory)) \<lparr>ps = 0x1000, len = 3\<rparr> \<and>
   readable (store_cstr 0x1000 ''aaa'' (store_cstr 0x2000 ''aa'' no_memory)) \<lparr>ps = 0x2000, len = 2\<rparr> \<and>
   len \<lparr>ps = 0x2000, len = 2\<rparr> \<le> len \<lparr>ps = 0x1000, len = 3\<rparr> \<and>
   count_str (store_cstr 0x1000 ''aaa'' (store_cstr 0x2000 ''aa'' no_memory))
     \<lparr>ps = 0x1000, len = 3\<rparr> \<lparr>ps = 0x2000, len = 2\<rparr> = Inr 2 \<and>
   card {i. i + length ''aa'' \<le> length ''aaa'' \<and> take (length ''aa'') (drop i ''aaa'') = ''aa''} = 2 \<and>
   readable (store_cstr 0x1000 ''abcab'' (store_cstr 0x2000 ''ab'' no_memory)) \<lparr>ps = 0x1000, len = 5\<rparr> \<and>
   readable (store_cstr 0x1000 ''abcab'' (store_cstr 0x2000 ''ab'' no_memory)) \<lparr>ps = 0x2000, len = 2\<rparr> \<and>
   len \<lparr>ps = 0x2000, len = 2\<rparr> \<le> len \<lparr>ps = 0x1000, len = 5\<rparr> \<and>
   count_str (store_cstr 0x1000 ''abcab'' (store_cstr 0x2000 ''ab'' no_memory))
     \<lparr>ps = 0x1000, len = 5\<rparr> \<lparr>ps = 0x2000, len = 2\<rparr> = Inr 2 \<and>
   card {i. i + length ''ab'' \<le> length ''abcab'' \<and> take (length ''ab'') (drop i ''abcab'') = ''ab''} = 2"
proof -
  let ?M = "store_cstr 0x1000 ''aaa'' (store_cstr 0x2000 ''aa'' no_memory)"
  let ?N = "store_cstr 0x1000 ''abcab'' (store_cstr 0x2000 ''ab'' no_memory)"
  let ?v = "\<lparr>ps = 0x1000, len = 3\<rparr>" and ?w = "\<lparr>ps = 0x1000, len = 5\<rparr>"
  let ?p = "\<lparr>ps = 0x2000, len = 2\<rparr>"
  have r: "readable ?M ?v" "readable ?M ?p" "readable ?N ?w" "readable ?N ?p"
    by (simp_all add: mem_eval)
  have l: "len ?p \<le> len ?v" "len ?p \<le> len ?w"
    by simp_all
  have c: "chars ?M ?v = ''aaa''" "chars ?M ?p = ''aa''" "chars ?N ?w = ''abcab''"
    "chars ?N ?p = ''ab''"
    by (simp_all add: mem_eval)
  have e: "count_str ?M ?v ?p = Inr 2" "count_str ?N ?w ?p = Inr 2"
    by (simp_all add: count_str_def count_str_loop.simps equals_def substr_def memCompare_def
        memcmp_def mem_eval)
  have two: "n = 2" if "(of_nat n :: size_t) = 2" and "n < 2 ^ 64" for n
  proof -
    from that(1) have "unat (of_nat n :: size_t) = unat (2 :: size_t)"
      by simp
    with that(2) show ?thesis
      by (simp add: unat_of_nat)
  qed
  show ?thesis
    using r l e count_str_counts_every_position [OF r(1,2) l(1)]
      count_str_counts_every_position [OF r(3,4) l(2)]
    unfolding c by (auto intro: two)
qed

subsection \<open>Backward search for a character\<close>

lemmas search_eval = load_def npos_def size_ref_def string_ref_default_def to_string_def

text \<open>
  Whatever the backward scan returns, it is an index at which the memory holds the
  character, inside the view or not, or an invalid access: the statement \<open>return npos\<close>
  behind the loop is never reached.
\<close>

lemma rfind_char_loop_result:
  assumes "rfind_char_loop m v c i = Some r"
  shows "case r of Inl e \<Rightarrow> e = InvalidAccess | Inr j \<Rightarrow> m (ps v + j) = Some c"
proof (rule rfind_char_loop.raw_induct
    [where P = "\<lambda>m v c i r. case r of Inl e \<Rightarrow> e = InvalidAccess | Inr j \<Rightarrow> m (ps v + j) = Some c",
      OF _ assms])
  fix f :: "memory \<Rightarrow> string_ref \<Rightarrow> char \<Rightarrow> size_t \<Rightarrow> (error + size_t) option"
    and m v c i r
  assume IH: "\<And>m v c i r. f m v c i = Some r \<Longrightarrow>
      (case r of Inl e \<Rightarrow> e = InvalidAccess | Inr j \<Rightarrow> m (ps v + j) = Some c)"
    and eq: "(if 0 \<le> i
       then case load m (ps v + i) of
              Inl e \<Rightarrow> Some (Inl e)
            | Inr x \<Rightarrow> if c = x then Some (Inr i) else f m v c (i - 1)
       else Some (Inr npos)) = Some r"
  show "case r of Inl e \<Rightarrow> e = InvalidAccess | Inr j \<Rightarrow> m (ps v + j) = Some c"
  proof (cases "m (ps v + i)")
    case None
    with eq show ?thesis
      by (auto simp: load_def)
  next
    case (Some x)
    show ?thesis
    proof (cases "c = x")
      case True
      with eq Some show ?thesis
        by (auto simp: load_def)
    next
      case False
      with eq Some have "f m v c (i - 1) = Some r"
        by (simp add: load_def)
      then show ?thesis
        by (rule IH)
    qed
  qed
qed

lemma rfind_char_npos_is_a_match:
  assumes "rfind_char m v c rstart = Some (Inr npos)"
  shows "m (ps v - 1) = Some c"
  using rfind_char_loop_result [OF assms [unfolded rfind_char_def]] by (simp add: npos_def)

text \<open>
  C1. The backward scan of \<open>rfind_char\<close> underflows. On the default, empty view it starts
  at index \<open>min(rstart, 0 - 1) = 2 ^ 64 - 1\<close> and reads \<open>ps[2 ^ 64 - 1]\<close>; on
  \<open>string_ref("abcdefabgh")\<close>, which holds no \<open>z\<close>, it goes on below index 0 and reads
  the byte before the buffer. Neither call returns \<open>npos\<close>: where that byte is not
  mapped the read is invalid, and where the bytes before the view are mapped and hold
  the character, the call returns an index that is not below the length
  (here \<open>2 ^ 64 - 2\<close>, for the view \<open>"abc"\<close> inside the buffer \<open>"zyabc"\<close>).
\<close>

theorem rfind_char_underflows:
  "rfind_char no_memory string_ref_default CHR ''a'' npos = Some (Inl InvalidAccess) \<and>
   rfind_char (store_cstr 0x1000 ''abcdefabgh'' no_memory) \<lparr>ps = 0x1000, len = 10\<rparr> CHR ''z'' npos =
     Some (Inl InvalidAccess) \<and>
   chars (store_cstr 0x1000 ''zyabc'' no_memory) \<lparr>ps = 0x1002, len = 3\<rparr> = ''abc'' \<and>
   rfind_char (store_cstr 0x1000 ''zyabc'' no_memory) \<lparr>ps = 0x1002, len = 3\<rparr> CHR ''z'' npos =
     Some (Inr (npos - 1))"
  by (simp add: rfind_char_def rfind_char_loop.simps search_eval mem_eval)

subsection \<open>Forward search for a pattern\<close>

text \<open>The length of the view plays no part in the forward search for a pattern.\<close>

lemma find_str_ignores_length:
  "find_str m \<lparr>ps = a, len = n\<rparr> p = find_str m \<lparr>ps = a, len = n'\<rparr> p"
  by (simp add: find_str_def split: sum.splits)

text \<open>
  C2. \<open>find_str\<close> hands \<open>ps\<close> to \<open>strstr\<close>, which reads up to the first terminator and
  not up to \<open>len\<close>. For the view \<open>"abc"\<close> of length 3 at the start of the buffer
  \<open>"abcdef"\<close>, searching \<open>"ef"\<close> returns 4, an occurrence outside the view; with the
  buffer \<open>"abcxyz"\<close> behind the same three characters the answer is \<open>npos\<close>; and with
  no terminator behind them the read is invalid.
\<close>

theorem find_str_reads_past_length:
  "chars (store_cstr 0x1000 ''abcdef'' (store_cstr 0x2000 ''ef'' no_memory)) \<lparr>ps = 0x1000, len = 3\<rparr> = ''abc'' \<and>
   find_str (store_cstr 0x1000 ''abcdef'' (store_cstr 0x2000 ''ef'' no_memory))
     \<lparr>ps = 0x1000, len = 3\<rparr> \<lparr>ps = 0x2000, len = 2\<rparr> = Inr 4 \<and>
   \<not> (4 + len \<lparr>ps = 0x2000, len = 2\<rparr> \<le> len \<lparr>ps = 0x1000, len = (3 :: size_t)\<rparr>) \<and>
   chars (store_cstr 0x1000 ''abcxyz'' (store_cstr 0x2000 ''ef'' no_memory)) \<lparr>ps = 0x1000, len = 3\<rparr> = ''abc'' \<and>
   find_str (store_cstr 0x1000 ''abcxyz'' (store_cstr 0x2000 ''ef'' no_memory))
     \<lparr>ps = 0x1000, len = 3\<rparr> \<lparr>ps = 0x2000, len = 2\<rparr> = Inr npos \<and>
   chars (store_bytes 0x1000 ''abc'' (store_cstr 0x2000 ''ef'' no_memory)) \<lparr>ps = 0x1000, len = 3\<rparr> = ''abc'' \<and>
   find_str (store_bytes 0x1000 ''abc'' (store_cstr 0x2000 ''ef'' no_memory))
     \<lparr>ps = 0x1000, len = 3\<rparr> \<lparr>ps = 0x2000, len = 2\<rparr> = Inl InvalidAccess"
  by (simp add: find_str_def strstr_def c_str_def search_eval mem_eval)

subsection \<open>Splitting at a character\<close>

lemma chars_nth:
  "i < unat (len v) \<Longrightarrow> chars m v ! i = the (m (ps v + of_nat i))"
  by (simp add: chars_def read_bytes_def)

lemma load_chars:
  assumes "readable m v" and "i < unat (len v)"
  shows "load m (ps v + of_nat i) = Inr (chars m v ! i)"
proof -
  have "range_mapped m (ps v) (unat (len v))"
    using assms(1) by (simp add: readable_def)
  then have "m (ps v + of_nat i) \<noteq> None"
    using assms(2) by (rule range_mapped_nth)
  then show ?thesis
    using assms(2) by (auto simp: load_def chars_nth)
qed

lemma unat_of_nat_index:
  assumes "readable m v" and "i \<le> unat (len v)"
  shows "unat (of_nat i :: size_t) = i"
  using readable_len_bound [OF assms(1)] assms(2) by (simp add: unat_of_nat)

lemma index_less_len:
  assumes "readable m v" and "i < unat (len v)"
  shows "(of_nat i :: size_t) < len v"
  using assms unat_of_nat_index [OF assms(1), of i] by (simp add: word_less_nat_alt)

lemma unat_npos: "unat npos = 2 ^ 64 - 1"
  by (simp add: npos_def unsigned_minus_1_eq_mask mask_eq_exp_minus_1)

lemma takeWhile_neq_less: "c \<in> set xs \<Longrightarrow> length (takeWhile (\<lambda>x. x \<noteq> c) xs) < length xs"
  by (induction xs) auto

lemma index_not_npos:
  assumes "readable m v" and "i \<le> unat (len v)"
  shows "(of_nat i :: size_t) \<noteq> npos"
proof
  assume "(of_nat i :: size_t) = npos"
  then have "unat (of_nat i :: size_t) = unat npos"
    by simp
  then have "i = 2 ^ 64 - 1"
    using unat_of_nat_index [OF assms] by (simp add: unat_npos)
  then show False
    using readable_len_bound [OF assms(1)] assms(2) by simp
qed

declare find_char_loop.simps [simp del]

lemma find_char_loop_first:
  assumes "readable m v" and "k \<le> unat (len v)"
  shows "find_char_loop m v c (of_nat k) =
    (if c \<in> set (drop k (chars m v))
     then Inr (of_nat (k + length (takeWhile (\<lambda>x. x \<noteq> c) (drop k (chars m v)))))
     else Inr npos)"
  using assms(2)
proof (induction "unat (len v) - k" arbitrary: k)
  case 0
  then have "\<not> (of_nat k :: size_t) < len v"
    using unat_of_nat_index [OF assms(1), of k] by (simp add: word_less_nat_alt)
  then show ?case
    using 0 by (subst find_char_loop.simps) simp
next
  case (Suc d)
  then have k: "k < unat (len v)"
    by simp
  let ?xs = "chars m v"
  have dr: "drop k ?xs = ?xs ! k # drop (Suc k) ?xs"
    using k by (simp add: Cons_nth_drop_Suc)
  have lt: "(of_nat k :: size_t) < len v"
    by (rule index_less_len [OF assms(1) k])
  have ld: "load m (ps v + of_nat k) = Inr (?xs ! k)"
    by (rule load_chars [OF assms(1) k])
  show ?case
  proof (cases "c = ?xs ! k")
    case True
    then show ?thesis
      using lt ld by (subst find_char_loop.simps) (simp add: dr)
  next
    case False
    have "find_char_loop m v c (of_nat k) = find_char_loop m v c (of_nat (Suc k))"
      using lt ld False by (subst find_char_loop.simps) (simp add: add.commute)
    also have "\<dots> = (if c \<in> set (drop (Suc k) ?xs)
        then Inr (of_nat (Suc k + length (takeWhile (\<lambda>x. x \<noteq> c) (drop (Suc k) ?xs))))
        else Inr npos)"
      using Suc.hyps(2) k by (intro Suc.hyps(1)) simp_all
    finally show ?thesis
      using False by (simp add: dr)
  qed
qed

lemma find_char_first:
  assumes "readable m v"
  shows "find_char m v c 0 =
    (if c \<in> set (chars m v) then Inr (of_nat (length (takeWhile (\<lambda>x. x \<noteq> c) (chars m v))))
     else Inr npos)"
proof (cases "len v = 0")
  case True
  then have "chars m v = []"
    by (simp add: chars_def read_bytes_def)
  with True show ?thesis
    by (simp add: find_char_def)
next
  case False
  then have "\<not> 0 \<ge> len v"
    by (simp add: word_le_nat_alt unat_eq_zero)
  then have "find_char m v c 0 = find_char_loop m v c (of_nat 0)"
    by (simp add: find_char_def)
  also have "\<dots> = (if c \<in> set (drop 0 (chars m v))
      then Inr (of_nat (0 + length (takeWhile (\<lambda>x. x \<noteq> c) (drop 0 (chars m v)))))
      else Inr npos)"
    by (rule find_char_loop_first [OF assms]) simp
  finally show ?thesis
    by simp
qed

text \<open>The two halves cut out by \<open>slice(0, pos)\<close> and \<open>slice(pos + n, len)\<close>.\<close>

lemma slice_before:
  assumes "readable m v" and "i \<le> unat (len v)"
  shows "chars m (slice v 0 (of_nat i)) = take i (chars m v)"
  using unat_of_nat_index [OF assms] by (simp add: slice_chars unat_max)

lemma slice_after:
  assumes "readable m v" and "j \<le> unat (len v)"
  shows "chars m (slice v (of_nat j) (len v)) = drop j (chars m v)"
proof -
  have "unat (of_nat j :: size_t) = j"
    by (rule unat_of_nat_index [OF assms])
  then show ?thesis
    using assms(2) by (simp add: slice_chars unat_max unat_min min_absorb1 max_absorb2)
qed

lemma split_char_spec:
  assumes "readable m v"
  shows "(c \<in> set (chars m v) \<longrightarrow>
      (\<exists>a b. split_char m v c = Inr (a, b) \<and> chars m v = chars m a @ c # chars m b \<and>
         c \<notin> set (chars m a))) \<and>
    (c \<notin> set (chars m v) \<longrightarrow> split_char m v c = Inr (v, string_ref_default))"
proof (cases "c \<in> set (chars m v)")
  case False
  then show ?thesis
    by (simp add: split_char_def find_char_first [OF assms])
next
  case True
  let ?xs = "chars m v"
  let ?i = "length (takeWhile (\<lambda>x. x \<noteq> c) ?xs)"
  have i: "?i < unat (len v)"
    using True takeWhile_neq_less [of c ?xs] by simp
  have ne: "(of_nat ?i :: size_t) \<noteq> npos"
    using i by (intro index_not_npos [OF assms]) simp
  have split: "split_char m v c =
      Inr (slice v 0 (of_nat ?i), slice v (of_nat (Suc ?i)) (len v))"
    using True ne by (simp add: split_char_def find_char_first [OF assms] add.commute)
  have a: "chars m (slice v 0 (of_nat ?i)) = takeWhile (\<lambda>x. x \<noteq> c) ?xs"
    using i by (simp add: slice_before [OF assms] takeWhile_eq_take [symmetric])
  have b: "chars m (slice v (of_nat (Suc ?i)) (len v)) = drop (Suc ?i) ?xs"
    using i by (intro slice_after [OF assms]) simp
  have "?xs ! ?i = c"
    using i nth_length_takeWhile [of "\<lambda>x. x \<noteq> c" ?xs] by simp
  then have "?xs = takeWhile (\<lambda>x. x \<noteq> c) ?xs @ c # drop (Suc ?i) ?xs"
    using i id_take_nth_drop [of ?i ?xs] by (simp add: takeWhile_eq_take [symmetric])
  moreover have "c \<notin> set (takeWhile (\<lambda>x. x \<noteq> c) ?xs)"
    by (auto dest: set_takeWhileD)
  ultimately show ?thesis
    using True split a b by (metis (no_types, lifting))
qed

lemma rfind_char_loop_last:
  assumes "readable m v" and "k < unat (len v)" and "\<exists>j\<le>k. chars m v ! j = c"
  shows "\<exists>pos\<le>k. rfind_char_loop m v c (of_nat k) = Some (Inr (of_nat pos)) \<and>
    chars m v ! pos = c \<and> (\<forall>j. pos < j \<and> j \<le> k \<longrightarrow> chars m v ! j \<noteq> c)"
  using assms(2,3)
proof (induction k)
  case 0
  then have "chars m v ! 0 = c"
    by simp
  moreover have "load m (ps v + of_nat 0) = Inr (chars m v ! 0)"
    using 0(1) by (rule load_chars [OF assms(1)])
  ultimately have "rfind_char_loop m v c (of_nat 0) = Some (Inr (of_nat 0))"
    by (subst rfind_char_loop.simps) auto
  with \<open>chars m v ! 0 = c\<close> show ?case
    by auto
next
  case (Suc k)
  have ld: "load m (ps v + of_nat (Suc k)) = Inr (chars m v ! Suc k)"
    using Suc.prems(1) by (rule load_chars [OF assms(1)])
  show ?case
  proof (cases "chars m v ! Suc k = c")
    case True
    with ld have "rfind_char_loop m v c (of_nat (Suc k)) = Some (Inr (of_nat (Suc k)))"
      by (subst rfind_char_loop.simps) auto
    with True show ?thesis
      by auto
  next
    case False
    with Suc.prems(2) have ex: "\<exists>j\<le>k. chars m v ! j = c"
      by (metis le_SucE)
    from Suc.prems(1) have "k < unat (len v)"
      by simp
    from Suc.IH [OF this ex] obtain pos where pos: "pos \<le> k"
      "rfind_char_loop m v c (of_nat k) = Some (Inr (of_nat pos))" "chars m v ! pos = c"
      "\<forall>j. pos < j \<and> j \<le> k \<longrightarrow> chars m v ! j \<noteq> c"
      by blast
    have "rfind_char_loop m v c (of_nat (Suc k)) = rfind_char_loop m v c (of_nat k)"
      using ld False by (subst rfind_char_loop.simps) auto
    with pos False show ?thesis
      by (metis le_Suc_eq)
  qed
qed

lemma rsplit_char_spec:
  assumes "readable m v" and "c \<in> set (chars m v)"
  shows "\<exists>a b. rsplit_char m v c = Some (Inr (a, b)) \<and> chars m v = chars m a @ c # chars m b \<and>
    c \<notin> set (chars m b)"
proof -
  let ?xs = "chars m v"
  let ?k = "unat (len v) - 1"
  from assms(2) obtain j where j: "j < length ?xs" "?xs ! j = c"
    by (auto simp: in_set_conv_nth)
  then have pos_len: "0 < unat (len v)"
    by simp
  then have k: "?k < unat (len v)"
    by simp
  have start: "min npos (len v - 1) = of_nat ?k"
  proof -
    have "len v - 1 \<le> npos"
      by (simp add: npos_def)
    moreover have "len v - 1 = of_nat ?k"
      using pos_len by simp
    ultimately show ?thesis
      by (simp add: min_absorb2)
  qed
  have "\<exists>j\<le>?k. ?xs ! j = c"
    using j by (intro exI [of _ j]) simp
  from rfind_char_loop_last [OF assms(1) k this] obtain pos where pos: "pos \<le> ?k"
    "rfind_char_loop m v c (of_nat ?k) = Some (Inr (of_nat pos))" "?xs ! pos = c"
    "\<forall>j. pos < j \<and> j \<le> ?k \<longrightarrow> ?xs ! j \<noteq> c"
    by blast
  from pos(1) k have pl: "pos < unat (len v)"
    by simp
  have ne: "(of_nat pos :: size_t) \<noteq> npos"
    using pl by (intro index_not_npos [OF assms(1)]) simp
  have split: "rsplit_char m v c =
      Some (Inr (slice v 0 (of_nat pos), slice v (of_nat (Suc pos)) (len v)))"
    using ne pos(2) by (simp add: rsplit_char_def rfind_char_def start add.commute)
  have a: "chars m (slice v 0 (of_nat pos)) = take pos ?xs"
    using pl by (intro slice_before [OF assms(1)]) simp
  have b: "chars m (slice v (of_nat (Suc pos)) (len v)) = drop (Suc pos) ?xs"
    using pl by (intro slice_after [OF assms(1)]) simp
  have whole: "?xs = take pos ?xs @ c # drop (Suc pos) ?xs"
    using pl pos(3) id_take_nth_drop [of pos ?xs] by simp
  have "c \<notin> set (drop (Suc pos) ?xs)"
  proof
    assume "c \<in> set (drop (Suc pos) ?xs)"
    then obtain i where i: "i < length ?xs - Suc pos" "drop (Suc pos) ?xs ! i = c"
      by (auto simp: in_set_conv_nth)
    then have "?xs ! (Suc pos + i) = c"
      by simp
    moreover have "pos < Suc pos + i \<and> Suc pos + i \<le> ?k"
      using i(1) by simp
    ultimately show False
      using pos(4) by blast
  qed
  with split a b whole show ?thesis
    by (metis (no_types, lifting))
qed

subsection \<open>Splitting at a pattern\<close>

text \<open>A match of \<open>p\<close> at position \<open>i\<close> of \<open>s\<close> is a decomposition of \<open>s\<close> around \<open>p\<close>.\<close>

lemma match_decomposes:
  assumes "i + length p \<le> length s" and "take (length p) (drop i s) = p"
  shows "s = take i s @ p @ drop (i + length p) s"
proof -
  have "drop i s = take (length p) (drop i s) @ drop (length p) (drop i s)"
    by (rule append_take_drop_id [symmetric])
  also have "\<dots> = p @ drop (i + length p) s"
    by (simp only: assms(2) drop_drop add.commute)
  finally have "take i s @ drop i s = take i s @ p @ drop (i + length p) s"
    by (rule arg_cong)
  then show ?thesis
    by (simp only: append_take_drop_id)
qed

lemma decomposition_matches:
  assumes "s = u @ p @ w"
  shows "length u + length p \<le> length s \<and> take (length p) (drop (length u) s) = p"
  using assms by simp

lemma find_sub_Some:
  "find_sub p s = Some i \<Longrightarrow>
     i + length p \<le> length s \<and> take (length p) (drop i s) = p \<and>
     (\<forall>j<i. take (length p) (drop j s) \<noteq> p)"
proof (induction s arbitrary: i)
  case Nil
  then show ?case by (simp split: if_splits)
next
  case (Cons h hs)
  show ?case
  proof (cases "take (length p) (h # hs) = p")
    case True
    then have "length (take (length p) (h # hs)) = length p"
      by simp
    then have "length p \<le> length (h # hs)"
      by (simp only: length_take)
    with True Cons.prems show ?thesis
      by simp
  next
    case False
    with Cons.prems obtain i' where i': "find_sub p hs = Some i'" "i = Suc i'"
      by auto
    from Cons.IH [OF i'(1)] have IH: "i' + length p \<le> length hs"
      "take (length p) (drop i' hs) = p" "\<forall>j<i'. take (length p) (drop j hs) \<noteq> p"
      by simp_all
    have "take (length p) (drop j (h # hs)) \<noteq> p" if "j < i" for j
      using that False IH(3) i'(2) by (cases j) simp_all
    with IH(1,2) i'(2) show ?thesis
      by simp
  qed
qed

lemma find_sub_None:
  "find_sub p s = None \<Longrightarrow> j + length p \<le> length s \<Longrightarrow> take (length p) (drop j s) \<noteq> p"
proof (induction s arbitrary: j)
  case Nil
  then show ?case by (simp split: if_splits)
next
  case (Cons h hs)
  from Cons.prems(1) have no: "take (length p) (h # hs) \<noteq> p" and rest: "find_sub p hs = None"
    by (simp_all split: if_splits)
  show ?case
  proof (cases j)
    case 0
    with no show ?thesis by simp
  next
    case (Suc j')
    with Cons.IH [OF rest, of j'] Cons.prems(2) show ?thesis
      by simp
  qed
qed

lemma rfind_from_Some:
  "rfind_from s p k = Some i \<Longrightarrow>
     i \<le> k \<and> take (length p) (drop i s) = p \<and>
     (\<forall>j. i < j \<and> j \<le> k \<longrightarrow> take (length p) (drop j s) \<noteq> p)"
proof (induction k)
  case 0
  then show ?case by (simp split: if_splits)
next
  case (Suc k)
  show ?case
  proof (cases "take (length p) (drop (Suc k) s) = p")
    case True
    with Suc.prems show ?thesis
      by auto
  next
    case False
    with Suc.prems have "rfind_from s p k = Some i"
      by simp
    from Suc.IH [OF this] False show ?thesis
      by (auto simp: le_Suc_eq)
  qed
qed

lemma rfind_from_None:
  "rfind_from s p k = None \<Longrightarrow> j \<le> k \<Longrightarrow> take (length p) (drop j s) \<noteq> p"
proof (induction k)
  case 0
  then show ?case by (simp split: if_splits)
next
  case (Suc k)
  from Suc.prems(1) have no: "take (length p) (drop (Suc k) s) \<noteq> p"
    and rest: "rfind_from s p k = None"
    by (simp_all split: if_splits)
  show ?case
  proof (cases "j = Suc k")
    case True
    with no show ?thesis by simp
  next
    case False
    with Suc.prems(2) have "j \<le> k" by simp
    with Suc.IH [OF rest] show ?thesis by simp
  qed
qed

declare c_string_from.simps [simp del]

lemma c_string_from_terminated:
  assumes "range_mapped m p L" and "NUL \<notin> set (read_bytes m p L)"
    and "m (p + of_nat L) = Some NUL" and "L < 2 ^ 64" and "k \<le> L"
  shows "c_string_from m p k = Inr (drop k (read_bytes m p L))"
  using assms(5)
proof (induction "L - k" arbitrary: k)
  case 0
  then have "k = L" by simp
  then show ?case
    using assms(3,4) by (subst c_string_from.simps) (simp add: load_def)
next
  case (Suc d)
  then have k: "k < L" by simp
  let ?xs = "read_bytes m p L"
  have "m (p + of_nat k) \<noteq> None"
    using assms(1) k by (rule range_mapped_nth)
  moreover have nth: "?xs ! k = the (m (p + of_nat k))"
    using k by (simp add: read_bytes_def)
  ultimately have ld: "load m (p + of_nat k) = Inr (?xs ! k)"
    by (auto simp: load_def)
  have "?xs ! k \<in> set ?xs"
    using k by simp
  with assms(2) have nn: "?xs ! k \<noteq> NUL"
    by metis
  have "c_string_from m p (Suc k) = Inr (drop (Suc k) ?xs)"
    using Suc.hyps(2) k by (intro Suc.hyps(1)) simp_all
  then have "c_string_from m p k = Inr (?xs ! k # drop (Suc k) ?xs)"
    using k assms(4) ld nn by (subst c_string_from.simps) simp
  then show ?case
    using k by (simp add: Cons_nth_drop_Suc)
qed

lemma to_string_chars: "readable m v \<Longrightarrow> to_string m v = Inr (chars m v)"
  by (simp add: to_string_def readable_def chars_def)

lemma size_ref_zero_iff: "size_ref p = 0 \<longleftrightarrow> chars m p = []"
  by (metis length_chars length_0_conv unat_eq_zero size_ref_def)

text \<open>
  A view is a whole C string when its characters hold no terminator and the byte behind
  them is one.
\<close>

lemma find_str_terminated:
  assumes "readable m v" and "readable m p"
    and "NUL \<notin> set (chars m v)" and "m (ps v + len v) = Some NUL" and "NUL \<notin> set (chars m p)"
  shows "find_str m v p =
    Inr (case find_sub (chars m p) (chars m v) of None \<Rightarrow> npos | Some i \<Rightarrow> of_nat i)"
proof (cases "chars m p = []")
  case True
  then have "find_sub (chars m p) (chars m v) = Some 0"
    by (cases "chars m v") simp_all
  with True show ?thesis
    by (simp add: find_str_def size_ref_zero_iff [of p m])
next
  case False
  let ?xs = "chars m v" and ?pb = "chars m p"
  have cs: "c_str ?pb = ?pb"
    using assms(5) by (auto simp: c_str_def)
  have "c_string_from m (ps v) 0 = Inr (drop 0 (read_bytes m (ps v) (unat (len v))))"
    using assms(1,3,4) readable_len_bound [OF assms(1)]
    by (intro c_string_from_terminated) (simp_all add: readable_def chars_def)
  then have hay: "c_string_from m (ps v) 0 = Inr ?xs"
    by (simp add: chars_def)
  show ?thesis
  proof (cases "find_sub ?pb ?xs")
    case None
    then show ?thesis
      using False hay cs
      by (simp add: find_str_def size_ref_zero_iff [of p m] to_string_chars [OF assms(2)] strstr_def)
  next
    case (Some i)
    from find_sub_Some [OF Some] have i: "i + length ?pb \<le> length ?xs"
      by simp
    with False have pos: "0 < unat (len v)" and il: "i \<le> unat (len v)"
      by (cases ?pb; simp)+
    then have "ps v \<noteq> 0"
      using assms(1) by (auto simp: readable_def nullptr_def)
    then have "unat (ps v) \<noteq> 0"
      by (simp add: unat_eq_zero)
    moreover have "unat (ps v + of_nat i) = unat (ps v) + i"
      using assms(1) il unat_of_nat_index [OF assms(1) il]
      by (simp add: readable_def unat_add_lem [THEN iffD1])
    ultimately have "ps v + of_nat i \<noteq> nullptr"
      by (auto simp: nullptr_def)
    then show ?thesis
      using False hay cs Some
      by (simp add: find_str_def size_ref_zero_iff [of p m] to_string_chars [OF assms(2)] strstr_def)
  qed
qed

lemma pattern_end_index:
  assumes "readable m v" and "i + length (chars m p) \<le> unat (len v)"
  shows "of_nat i + size_ref p = (of_nat (i + length (chars m p)) :: size_t)"
  by (simp add: size_ref_def)

lemma split_at_match:
  assumes "readable m v" and "i + length (chars m p) \<le> unat (len v)"
    and "take (length (chars m p)) (drop i (chars m v)) = chars m p"
  shows "chars m v = chars m (slice v 0 (of_nat i)) @ chars m p @
      chars m (slice v (of_nat i + size_ref p) (len v)) \<and>
    length (chars m (slice v 0 (of_nat i))) = i"
proof -
  have i: "i \<le> unat (len v)"
    using assms(2) by simp
  have a: "chars m (slice v 0 (of_nat i)) = take i (chars m v)"
    by (rule slice_before [OF assms(1) i])
  have "chars m (slice v (of_nat (i + length (chars m p))) (len v)) =
      drop (i + length (chars m p)) (chars m v)"
    by (rule slice_after [OF assms(1,2)])
  then have b: "chars m (slice v (of_nat i + size_ref p) (len v)) =
      drop (i + length (chars m p)) (chars m v)"
    by (simp only: pattern_end_index [OF assms(1,2)])
  have "chars m v = take i (chars m v) @ chars m p @ drop (i + length (chars m p)) (chars m v)"
    using assms(2,3) by (intro match_decomposes) simp_all
  then show ?thesis
    using i by (simp add: a b)
qed

lemma split_str_spec:
  assumes "readable m v" and "readable m p"
    and "NUL \<notin> set (chars m v)" and "m (ps v + len v) = Some NUL" and "NUL \<notin> set (chars m p)"
  shows "((\<exists>u w. chars m v = u @ chars m p @ w) \<longrightarrow>
      (\<exists>a b. split_str m v p = Inr (a, b) \<and> chars m v = chars m a @ chars m p @ chars m b \<and>
         (\<forall>u w. chars m v = u @ chars m p @ w \<longrightarrow> length (chars m a) \<le> length u))) \<and>
    (\<not> (\<exists>u w. chars m v = u @ chars m p @ w) \<longrightarrow> split_str m v p = Inr (v, string_ref_default))"
proof (cases "find_sub (chars m p) (chars m v)")
  case None
  have "\<not> (\<exists>u w. chars m v = u @ chars m p @ w)"
  proof
    assume "\<exists>u w. chars m v = u @ chars m p @ w"
    then obtain u w where "chars m v = u @ chars m p @ w"
      by blast
    from decomposition_matches [OF this] find_sub_None [OF None, of "length u"]
    show False by simp
  qed
  moreover have "split_str m v p = Inr (v, string_ref_default)"
    using None by (simp add: split_str_def find_str_terminated [OF assms])
  ultimately show ?thesis
    by simp
next
  case (Some i)
  let ?a = "slice v 0 (of_nat i)" and ?b = "slice v (of_nat i + size_ref p) (len v)"
  from find_sub_Some [OF Some] have i: "i + length (chars m p) \<le> unat (len v)"
    "take (length (chars m p)) (drop i (chars m v)) = chars m p"
    "\<forall>j<i. take (length (chars m p)) (drop j (chars m v)) \<noteq> chars m p"
    by simp_all
  have "(of_nat i :: size_t) \<noteq> npos"
    using i(1) by (intro index_not_npos [OF assms(1)]) simp
  then have split: "split_str m v p = Inr (?a, ?b)"
    using Some by (simp add: split_str_def find_str_terminated [OF assms])
  note parts = split_at_match [OF assms(1) i(1,2)]
  have first: "length (chars m ?a) \<le> length u" if "chars m v = u @ chars m p @ w" for u w
  proof (rule ccontr)
    assume "\<not> length (chars m ?a) \<le> length u"
    then have "length u < i"
      using parts by simp
    with i(3) decomposition_matches [OF that] show False
      by blast
  qed
  show ?thesis
    using split parts first by blast
qed

lemma rfind_str_spec:
  assumes "readable m v" and "readable m p" and "chars m p \<noteq> []"
  shows "rfind_str m v p =
    Inr (case rfind_sub (chars m v) (chars m p) of None \<Rightarrow> npos | Some i \<Rightarrow> of_nat i)"
  using assms(3)
  by (simp add: rfind_str_def size_ref_zero_iff [of p m] to_string_chars [OF assms(1)]
      to_string_chars [OF assms(2)] std_string_rfind_def Let_def)

lemma rsplit_str_spec:
  assumes "readable m v" and "readable m p"
  shows "(chars m p \<noteq> [] \<and> (\<exists>u w. chars m v = u @ chars m p @ w) \<longrightarrow>
      (\<exists>a b. rsplit_str m v p = Inr (a, b) \<and> chars m v = chars m a @ chars m p @ chars m b \<and>
         (\<forall>u w. chars m v = u @ chars m p @ w \<longrightarrow> length u \<le> length (chars m a)))) \<and>
    (\<not> (\<exists>u w. chars m v = u @ chars m p @ w) \<longrightarrow> rsplit_str m v p = Inr (v, string_ref_default)) \<and>
    (chars m p = [] \<longrightarrow>
      (\<exists>a b. rsplit_str m v p = Inr (a, b) \<and> chars m a = [] \<and> chars m b = chars m v))"
proof (cases "chars m p = []")
  case True
  then have "size_ref p = 0"
    by (simp add: size_ref_zero_iff [of p m])
  then have "rsplit_str m v p = Inr (slice v 0 0, slice v 0 (len v))"
    by (simp add: rsplit_str_def rfind_str_def npos_def)
  moreover have "chars m (slice v 0 0) = []"
    using slice_before [OF assms(1), of 0] by simp
  moreover have "chars m (slice v 0 (len v)) = chars m v"
    using slice_after [OF assms(1), of 0] by simp
  moreover have "\<exists>u w. chars m v = u @ chars m p @ w"
    using True by (intro exI [of _ "[]"] exI [of _ "chars m v"]) simp
  ultimately show ?thesis
    using True by simp
next
  case False
  note rfind = rfind_str_spec [OF assms False]
  let ?xs = "chars m v" and ?pb = "chars m p"
  show ?thesis
  proof (cases "rfind_sub ?xs ?pb")
    case None
    have "\<not> (\<exists>u w. ?xs = u @ ?pb @ w)"
    proof
      assume "\<exists>u w. ?xs = u @ ?pb @ w"
      then obtain u w where uw: "?xs = u @ ?pb @ w"
        by blast
      note occ = decomposition_matches [OF uw]
      then have "length u + length ?pb \<le> length ?xs"
        by (rule conjunct1)
      then have le: "length ?pb \<le> length ?xs" and u: "length u \<le> length ?xs - length ?pb"
        by linarith+
      from None le have "rfind_from ?xs ?pb (length ?xs - length ?pb) = None"
        by (simp add: rfind_sub_def)
      from rfind_from_None [OF this u] occ show False
        by simp
    qed
    moreover have "rsplit_str m v p = Inr (v, string_ref_default)"
      using None by (simp add: rsplit_str_def rfind)
    ultimately show ?thesis
      using False by simp
  next
    case (Some i)
    let ?a = "slice v 0 (of_nat i)" and ?b = "slice v (of_nat i + size_ref p) (len v)"
    from Some have le: "length ?pb \<le> length ?xs"
      and scan: "rfind_from ?xs ?pb (length ?xs - length ?pb) = Some i"
      by (simp_all add: rfind_sub_def split: if_splits)
    from rfind_from_Some [OF scan] have i: "i \<le> length ?xs - length ?pb"
      "take (length ?pb) (drop i ?xs) = ?pb"
      "\<forall>j. i < j \<and> j \<le> length ?xs - length ?pb \<longrightarrow> take (length ?pb) (drop j ?xs) \<noteq> ?pb"
      by simp_all
    from i(1) le have il: "i + length ?pb \<le> unat (len v)"
      by simp
    have "(of_nat i :: size_t) \<noteq> npos"
      using il by (intro index_not_npos [OF assms(1)]) simp
    then have split: "rsplit_str m v p = Inr (?a, ?b)"
      using Some by (simp add: rsplit_str_def rfind)
    note parts = split_at_match [OF assms(1) il i(2)]
    have last: "length u \<le> length (chars m ?a)" if "?xs = u @ ?pb @ w" for u w
    proof (rule ccontr)
      assume "\<not> length u \<le> length (chars m ?a)"
      then have "i < length u"
        using parts by simp
      moreover note occ = decomposition_matches [OF that]
      then have "length u + length ?pb \<le> length ?xs"
        by (rule conjunct1)
      then have "length u \<le> length ?xs - length ?pb"
        by linarith
      ultimately show False
        using i(3) occ by blast
    qed
    show ?thesis
      using split parts last False by blast
  qed
qed

lemma rfind_from_unfold:
  "rfind_from s p k =
     (if take (length p) (drop k s) = p then Some k
      else if k = 0 then None else rfind_from s p (k - 1))"
  by (cases k) simp_all

lemmas split_eval = split_char_def split_str_def rsplit_char_def rsplit_str_def
  find_char_def find_char_loop.simps rfind_char_def rfind_char_loop.simps
  find_str_def strstr_def c_str_def c_string_from.simps
  rfind_str_def std_string_rfind_def rfind_sub_def rfind_from_unfold slice_def

text \<open>
  Where the four splits cut around the separator. For a readable view and a readable
  pattern:
  \<^item> \<open>split(char)\<close> returns the subviews before and after the first occurrence of the
    character, and the view itself with \<open>string_ref()\<close> when it does not occur;
  \<^item> \<open>rsplit(char)\<close>, for a character that occurs, returns the subviews before and after
    its last occurrence;
  \<^item> \<open>rsplit(pattern)\<close> returns, for a non-empty pattern, the subviews before and after
    its last occurrence, and the view itself with \<open>string_ref()\<close> when it does not occur;
    the empty pattern matches at index 0, which gives an empty first half and the whole
    view as second half;
  \<^item> \<open>split(pattern)\<close>, when the view is a whole C string (no terminator among its
    characters, a terminator right behind them) and the pattern holds no terminator,
    returns the subviews before and after the first occurrence of the pattern, and the
    view itself with \<open>string_ref()\<close> when it does not occur.
  In each of these cases the separator is in neither half.
\<close>

lemma split_around_separator:
  assumes "readable m v" and "readable m p"
  shows "(c \<in> set (chars m v) \<longrightarrow>
      (\<exists>a b. split_char m v c = Inr (a, b) \<and> chars m v = chars m a @ c # chars m b \<and>
         c \<notin> set (chars m a))) \<and>
    (c \<notin> set (chars m v) \<longrightarrow> split_char m v c = Inr (v, string_ref_default)) \<and>
    (c \<in> set (chars m v) \<longrightarrow>
      (\<exists>a b. rsplit_char m v c = Some (Inr (a, b)) \<and> chars m v = chars m a @ c # chars m b \<and>
         c \<notin> set (chars m b))) \<and>
    (chars m p \<noteq> [] \<and> (\<exists>u w. chars m v = u @ chars m p @ w) \<longrightarrow>
      (\<exists>a b. rsplit_str m v p = Inr (a, b) \<and> chars m v = chars m a @ chars m p @ chars m b \<and>
         (\<forall>u w. chars m v = u @ chars m p @ w \<longrightarrow> length u \<le> length (chars m a)))) \<and>
    (\<not> (\<exists>u w. chars m v = u @ chars m p @ w) \<longrightarrow> rsplit_str m v p = Inr (v, string_ref_default)) \<and>
    (chars m p = [] \<longrightarrow>
      (\<exists>a b. rsplit_str m v p = Inr (a, b) \<and> chars m a = [] \<and> chars m b = chars m v)) \<and>
    (NUL \<notin> set (chars m v) \<and> m (ps v + len v) = Some NUL \<and> NUL \<notin> set (chars m p) \<longrightarrow>
      ((\<exists>u w. chars m v = u @ chars m p @ w) \<longrightarrow>
        (\<exists>a b. split_str m v p = Inr (a, b) \<and> chars m v = chars m a @ chars m p @ chars m b \<and>
           (\<forall>u w. chars m v = u @ chars m p @ w \<longrightarrow> length (chars m a) \<le> length u))) \<and>
      (\<not> (\<exists>u w. chars m v = u @ chars m p @ w) \<longrightarrow>
        split_str m v p = Inr (v, string_ref_default)))"
proof -
  note sc = split_char_spec [OF assms(1), of c]
  have rc: "c \<in> set (chars m v) \<longrightarrow>
      (\<exists>a b. rsplit_char m v c = Some (Inr (a, b)) \<and> chars m v = chars m a @ c # chars m b \<and>
         c \<notin> set (chars m b))"
    using rsplit_char_spec [OF assms(1)] by blast
  note rs = rsplit_str_spec [OF assms]
  have ss: "NUL \<notin> set (chars m v) \<and> m (ps v + len v) = Some NUL \<and> NUL \<notin> set (chars m p) \<longrightarrow>
      ((\<exists>u w. chars m v = u @ chars m p @ w) \<longrightarrow>
        (\<exists>a b. split_str m v p = Inr (a, b) \<and> chars m v = chars m a @ chars m p @ chars m b \<and>
           (\<forall>u w. chars m v = u @ chars m p @ w \<longrightarrow> length (chars m a) \<le> length u))) \<and>
      (\<not> (\<exists>u w. chars m v = u @ chars m p @ w) \<longrightarrow>
        split_str m v p = Inr (v, string_ref_default))"
    using split_str_spec [OF assms] by blast
  from sc rc rs ss show ?thesis
    by (elim conjE) (intro conjI)
qed

text \<open>The splits of the repository's test that find their separator, and \<open>split('z')\<close>.\<close>

lemma split_examples:
  "readable (store_cstr 0x1000 ''abcdefabgh'' (store_cstr 0x2000 ''ab'' no_memory))
     \<lparr>ps = 0x1000, len = 10\<rparr> \<and>
   readable (store_cstr 0x1000 ''abcdefabgh'' (store_cstr 0x2000 ''ab'' no_memory))
     \<lparr>ps = 0x2000, len = 2\<rparr> \<and>
   chars (store_cstr 0x1000 ''abcdefabgh'' (store_cstr 0x2000 ''ab'' no_memory))
     \<lparr>ps = 0x1000, len = 10\<rparr> = ''abcdef'' @ ''ab'' @ ''gh'' \<and>
   chars (store_cstr 0x1000 ''abcdefabgh'' (store_cstr 0x2000 ''ab'' no_memory))
     \<lparr>ps = 0x2000, len = 2\<rparr> = ''ab'' \<and>
   store_cstr 0x1000 ''abcdefabgh'' (store_cstr 0x2000 ''ab'' no_memory) (0x1000 + 10) = Some NUL \<and>
   rsplit_str (store_cstr 0x1000 ''abcdefabgh'' (store_cstr 0x2000 ''ab'' no_memory))
     \<lparr>ps = 0x1000, len = 10\<rparr> \<lparr>ps = 0x2000, len = 2\<rparr> =
     Inr (\<lparr>ps = 0x1000, len = 6\<rparr>, \<lparr>ps = 0x1008, len = 2\<rparr>) \<and>
   chars (store_cstr 0x1000 ''abcdefabgh'' (store_cstr 0x2000 ''ab'' no_memory))
     \<lparr>ps = 0x1000, len = 6\<rparr> = ''abcdef'' \<and>
   chars (store_cstr 0x1000 ''abcdefabgh'' (store_cstr 0x2000 ''ab'' no_memory))
     \<lparr>ps = 0x1008, len = 2\<rparr> = ''gh'' \<and>
   split_str (store_cstr 0x1000 ''abcdefabgh'' (store_cstr 0x2000 ''ab'' no_memory))
     \<lparr>ps = 0x1000, len = 10\<rparr> \<lparr>ps = 0x2000, len = 2\<rparr> =
     Inr (\<lparr>ps = 0x1000, len = 0\<rparr>, \<lparr>ps = 0x1002, len = 8\<rparr>) \<and>
   split_char (store_cstr 0x1000 ''abcdefabgh'' (store_cstr 0x2000 ''ab'' no_memory))
     \<lparr>ps = 0x1000, len = 10\<rparr> CHR ''c'' =
     Inr (\<lparr>ps = 0x1000, len = 2\<rparr>, \<lparr>ps = 0x1003, len = 7\<rparr>) \<and>
   rsplit_char (store_cstr 0x1000 ''abcdefabgh'' (store_cstr 0x2000 ''ab'' no_memory))
     \<lparr>ps = 0x1000, len = 10\<rparr> CHR ''a'' =
     Some (Inr (\<lparr>ps = 0x1000, len = 6\<rparr>, \<lparr>ps = 0x1007, len = 3\<rparr>)) \<and>
   split_char (store_cstr 0x1000 ''abcdefabgh'' (store_cstr 0x2000 ''ab'' no_memory))
     \<lparr>ps = 0x1000, len = 10\<rparr> CHR ''z'' = Inr (\<lparr>ps = 0x1000, len = 10\<rparr>, string_ref_default)"
proof -
  let ?M = "store_cstr 0x1000 ''abcdefabgh'' (store_cstr 0x2000 ''ab'' no_memory)"
  let ?v = "\<lparr>ps = 0x1000, len = 10\<rparr>" and ?p = "\<lparr>ps = 0x2000, len = 2\<rparr>"
  have r: "readable ?M ?v" "readable ?M ?p"
    by (simp_all add: mem_eval)
  have c: "chars ?M ?v = ''abcdefabgh''" "chars ?M ?p = ''ab''"
    "chars ?M \<lparr>ps = 0x1000, len = 6\<rparr> = ''abcdef''" "chars ?M \<lparr>ps = 0x1008, len = 2\<rparr> = ''gh''"
    by (simp_all add: mem_eval)
  have t: "?M (0x1000 + 10) = Some NUL"
    by (simp add: mem_eval)
  have e: "rsplit_str ?M ?v ?p = Inr (\<lparr>ps = 0x1000, len = 6\<rparr>, \<lparr>ps = 0x1008, len = 2\<rparr>)"
    "split_str ?M ?v ?p = Inr (\<lparr>ps = 0x1000, len = 0\<rparr>, \<lparr>ps = 0x1002, len = 8\<rparr>)"
    "split_char ?M ?v CHR ''c'' = Inr (\<lparr>ps = 0x1000, len = 2\<rparr>, \<lparr>ps = 0x1003, len = 7\<rparr>)"
    "rsplit_char ?M ?v CHR ''a'' = Some (Inr (\<lparr>ps = 0x1000, len = 6\<rparr>, \<lparr>ps = 0x1007, len = 3\<rparr>))"
    by (simp_all add: split_eval search_eval mem_eval)
  have z: "CHR ''z'' \<notin> set (chars ?M ?v)"
    by (simp add: c)
  from split_around_separator [OF r, of "CHR ''z''"] z
  have "split_char ?M ?v CHR ''z'' = Inr (?v, string_ref_default)"
    by blast
  with r c t e show ?thesis
    by simp
qed

text \<open>
  When the character does not occur, \<open>rsplit(char)\<close> can still only return the whole
  view and an empty view; what goes wrong is that it need not return a pair at all.
\<close>

lemma rsplit_char_absent_partial:
  assumes "c \<notin> set (chars m v)" and "rsplit_char m v c = Some (Inr (a, b))"
  shows "chars m a = chars m v \<and> chars m b = []"
proof -
  from assms(2) obtain pos where pos: "rfind_char m v c npos = Some (Inr pos)"
    and ab: "(a, b) = (if pos = npos then (v, string_ref_default)
       else (slice v 0 pos, slice v (pos + 1) (len v)))"
    by (auto simp: rsplit_char_def split: option.splits sum.splits)
  from rfind_char_loop_result [OF pos [unfolded rfind_char_def]]
  have hit: "m (ps v + pos) = Some c"
    by simp
  have ge: "unat (len v) \<le> unat pos"
  proof (rule ccontr)
    assume "\<not> unat (len v) \<le> unat pos"
    then have lt: "unat pos < unat (len v)"
      by simp
    then have "chars m v ! unat pos = c"
      using hit by (simp add: chars_nth)
    moreover have "unat pos < length (chars m v)"
      using lt by simp
    ultimately have "c \<in> set (chars m v)"
      by (metis nth_mem)
    with assms(1) show False ..
  qed
  show ?thesis
  proof (cases "pos = npos")
    case True
    with ab have "a = v" "b = string_ref_default"
      by simp_all
    then show ?thesis
      by (simp add: chars_def read_bytes_def string_ref_default_def)
  next
    case False
    with ab have a: "a = slice v 0 pos" and b: "b = slice v (pos + 1) (len v)"
      by simp_all
    from False have "1 + pos \<noteq> 0"
      by (simp add: npos_def add_eq_0_iff)
    then have "unat (1 + pos) = Suc (unat pos)"
      by (rule unatSuc)
    then have next_pos: "unat (pos + 1) = Suc (unat pos)"
      by (simp add: add.commute)
    have "chars m a = take (unat pos) (chars m v)"
      unfolding a by (simp add: slice_chars unat_max)
    then have whole: "chars m a = chars m v"
      using ge by simp
    have "unat (min (pos + 1) (len v)) = unat (len v)"
      using ge next_pos by (simp add: unat_min)
    then have "chars m b = []"
      unfolding b by (simp add: slice_chars)
    with whole show ?thesis ..
  qed
qed

text \<open>
  C3. The splits do not return the whole view and an empty view for every separator
  that does not occur. \<open>string_ref("abcdefabgh").rsplit('z')\<close>, the call of the
  repository's test, sends the backward scan of \<open>rfind_char\<close> below the buffer, where it
  reads unmapped memory, and returns no pair. For the view \<open>"abcd"\<close> of length 4 at the
  start of the buffer \<open>"abcdef"\<close>, in which \<open>"de"\<close> does not occur, \<open>split("de")\<close> finds
  the pattern behind the view and returns \<open>"abc"\<close> and an empty view.
\<close>

theorem split_breaks_on_absent_separator:
  "chars (store_cstr 0x1000 ''abcdefabgh'' no_memory) \<lparr>ps = 0x1000, len = 10\<rparr> = ''abcdefabgh'' \<and>
   CHR ''z'' \<notin> set ''abcdefabgh'' \<and>
   rsplit_char (store_cstr 0x1000 ''abcdefabgh'' no_memory) \<lparr>ps = 0x1000, len = 10\<rparr> CHR ''z'' =
     Some (Inl InvalidAccess) \<and>
   chars (store_cstr 0x1000 ''abcdef'' (store_cstr 0x2000 ''de'' no_memory)) \<lparr>ps = 0x1000, len = 4\<rparr> =
     ''abcd'' \<and>
   chars (store_cstr 0x1000 ''abcdef'' (store_cstr 0x2000 ''de'' no_memory)) \<lparr>ps = 0x2000, len = 2\<rparr> =
     ''de'' \<and>
   split_str (store_cstr 0x1000 ''abcdef'' (store_cstr 0x2000 ''de'' no_memory))
     \<lparr>ps = 0x1000, len = 4\<rparr> \<lparr>ps = 0x2000, len = 2\<rparr> =
     Inr (\<lparr>ps = 0x1000, len = 3\<rparr>, \<lparr>ps = 0x1004, len = 0\<rparr>) \<and>
   chars (store_cstr 0x1000 ''abcdef'' (store_cstr 0x2000 ''de'' no_memory)) \<lparr>ps = 0x1000, len = 3\<rparr> =
     ''abc'' \<and>
   chars (store_cstr 0x1000 ''abcdef'' (store_cstr 0x2000 ''de'' no_memory)) \<lparr>ps = 0x1004, len = 0\<rparr> =
     [] \<and>
   ''abcd'' \<noteq> ''abc'' @ ''de'' @ [] \<and> ''abcd'' \<noteq> ''abc''"
  by (simp add: split_eval search_eval mem_eval)

subsection \<open>Levenshtein distance\<close>

lemma levenshtein_Nil2 [simp]: "levenshtein xs [] = length xs"
  by (cases xs) simp_all

lemma edits_insert_all: "edits (length ys) [] ys"
  by (induction ys) (auto intro: edits.intros)

lemma edits_delete_all: "edits (length xs) xs []"
  by (induction xs) (auto intro: edits.intros)

text \<open>The distance is the least number of edits.\<close>

lemma edits_levenshtein: "edits (levenshtein xs ys) xs ys"
proof (induction xs ys rule: levenshtein.induct)
  case (1 ys)
  then show ?case by (simp add: edits_insert_all)
next
  case (2 x xs)
  show ?case using edits_delete_all [of "x # xs"] by simp
next
  case (3 x xs y ys)
  let ?a = "levenshtein xs ys + (if x = y then 0 else 1)"
  let ?b = "levenshtein xs (y # ys) + 1" and ?c = "levenshtein (x # xs) ys + 1"
  have a: "edits ?a (x # xs) (y # ys)"
    using "3.IH"(1) by (auto intro: edits.intros)
  have b: "edits ?b (x # xs) (y # ys)"
    using "3.IH"(2) by (auto intro: edits.intros)
  have c: "edits ?c (x # xs) (y # ys)"
    using "3.IH"(3) by (auto intro: edits.intros)
  have "min ?a (min ?b ?c) = ?a \<or> min ?a (min ?b ?c) = ?b \<or> min ?a (min ?b ?c) = ?c"
    by (auto simp: min_def)
  then show ?case
    unfolding levenshtein.simps using a b c by (elim disjE) simp_all
qed

lemma levenshtein_le_edits: "edits n xs ys \<Longrightarrow> levenshtein xs ys \<le> n"
proof (induction rule: edits.induct)
  case finished
  then show ?case by simp
next
  case (keep n xs ys x)
  then show ?case by (simp add: min.coboundedI1)
next
  case (substitute n xs ys x y)
  then show ?case by (simp add: min.coboundedI1)
next
  case (delete n xs ys x)
  then show ?case
    by (cases ys) (simp_all add: min.coboundedI2 min.coboundedI1)
next
  case (insert n xs ys y)
  then show ?case
    by (cases xs) (simp_all add: min.coboundedI2)
qed

lemma edits_snoc_keep: "edits n xs ys \<Longrightarrow> edits n (xs @ [a]) (ys @ [a])"
  by (induction rule: edits.induct) (auto intro: edits.intros)

lemma edits_snoc_substitute: "edits n xs ys \<Longrightarrow> edits (Suc n) (xs @ [a]) (ys @ [b])"
  by (induction rule: edits.induct) (auto intro: edits.intros)

lemma edits_snoc_delete: "edits n xs ys \<Longrightarrow> edits (Suc n) (xs @ [a]) ys"
  by (induction rule: edits.induct) (auto intro: edits.intros)

lemma edits_snoc_insert: "edits n xs ys \<Longrightarrow> edits (Suc n) xs (ys @ [b])"
  by (induction rule: edits.induct) (auto intro: edits.intros)

lemma edits_rev: "edits n xs ys \<Longrightarrow> edits n (rev xs) (rev ys)"
  by (induction rule: edits.induct)
    (auto intro: edits.finished edits_snoc_keep edits_snoc_substitute edits_snoc_delete
      edits_snoc_insert)

lemma levenshtein_rev_le: "levenshtein (rev xs) (rev ys) \<le> levenshtein xs ys"
proof -
  have "edits (levenshtein xs ys) xs ys"
    by (rule edits_levenshtein)
  then have "edits (levenshtein xs ys) (rev xs) (rev ys)"
    by (rule edits_rev)
  then show ?thesis
    by (rule levenshtein_le_edits)
qed

lemma levenshtein_rev: "levenshtein (rev xs) (rev ys) = levenshtein xs ys"
proof (rule antisym)
  show "levenshtein (rev xs) (rev ys) \<le> levenshtein xs ys"
    by (rule levenshtein_rev_le)
  show "levenshtein xs ys \<le> levenshtein (rev xs) (rev ys)"
    using levenshtein_rev_le [of "rev xs" "rev ys"] by simp
qed

lemma levenshtein_sym: "levenshtein xs ys = levenshtein ys xs"
proof (induction xs ys rule: levenshtein.induct)
  case (3 x xs y ys)
  have "(if x = y then 0 else 1 :: nat) = (if y = x then 0 else 1)"
    by auto
  with 3 show ?case
    by (simp only: levenshtein.simps min.commute)
qed simp_all

lemma levenshtein_same [simp]: "levenshtein xs xs = 0"
  by (induction xs) simp_all

lemma levenshtein_le_max: "levenshtein xs ys \<le> max (length xs) (length ys)"
proof (induction xs ys rule: levenshtein.induct)
  case (3 x xs y ys)
  have "levenshtein (x # xs) (y # ys) \<le> levenshtein xs ys + 1"
    by (simp add: min.coboundedI1)
  with "3.IH"(1) show ?case
    by simp
qed simp_all

text \<open>Dropping the first character of the target changes the distance by at most one.\<close>

lemma edits_drop_target:
  "edits n xs zs \<Longrightarrow> zs = y # ys \<Longrightarrow> \<exists>k\<le>Suc n. edits k xs ys"
proof (induction arbitrary: y ys rule: edits.induct)
  case finished
  then show ?case by simp
next
  case (keep n xs ys' x)
  from keep.prems keep.hyps have "edits n xs ys"
    by simp
  then have "edits (Suc n) (x # xs) ys"
    by (rule edits.delete)
  then show ?case by blast
next
  case (substitute n xs ys' x y')
  from substitute.prems substitute.hyps have "edits n xs ys"
    by simp
  then have "edits (Suc n) (x # xs) ys"
    by (rule edits.delete)
  moreover have "Suc n \<le> Suc (Suc n)"
    by simp
  ultimately show ?case by blast
next
  case (delete n xs ys' x)
  from delete.IH [OF delete.prems] obtain k where k: "k \<le> Suc n" "edits k xs ys"
    by blast
  from k(2) have "edits (Suc k) (x # xs) ys"
    by (rule edits.delete)
  moreover from k(1) have "Suc k \<le> Suc (Suc n)"
    by simp
  ultimately show ?case by blast
next
  case (insert n xs ys' y')
  from insert.prems insert.hyps have "edits n xs ys"
    by simp
  moreover have "n \<le> Suc (Suc n)"
    by simp
  ultimately show ?case by blast
qed

lemma levenshtein_drop_target: "levenshtein xs ys \<le> Suc (levenshtein xs (y # ys))"
proof -
  have "edits (levenshtein xs (y # ys)) xs (y # ys)"
    by (rule edits_levenshtein)
  then have "\<exists>k\<le>Suc (levenshtein xs (y # ys)). edits k xs ys"
    by (rule edits_drop_target) (rule refl)
  then obtain k where k: "k \<le> Suc (levenshtein xs (y # ys))" "edits k xs ys"
    by (elim exE conjE)
  from k(2) have "levenshtein xs ys \<le> k"
    by (rule levenshtein_le_edits)
  with k(1) show ?thesis
    by (rule order_trans [rotated])
qed

lemma levenshtein_drop_source: "levenshtein xs ys \<le> Suc (levenshtein (x # xs) ys)"
  using levenshtein_drop_target [of ys xs x] by (simp add: levenshtein_sym)

text \<open>The recurrence the code uses: equal characters cost nothing.\<close>

lemma levenshtein_Cons_Cons:
  "levenshtein (x # xs) (y # ys) =
     (if x = y then levenshtein xs ys
      else min (levenshtein xs ys + 1)
             (min (levenshtein (x # xs) ys + 1) (levenshtein xs (y # ys) + 1)))"
proof (cases "x = y")
  case True
  have "levenshtein xs ys \<le> levenshtein xs (y # ys) + 1"
    "levenshtein xs ys \<le> levenshtein (x # xs) ys + 1"
    using levenshtein_drop_target [of xs ys y] levenshtein_drop_source [of xs ys x] by simp_all
  with True show ?thesis
    by (simp add: min_absorb1)
next
  case False
  then show ?thesis
    by (simp add: min.commute)
qed

lemma levenshtein_snoc_snoc:
  "levenshtein (xs @ [x]) (ys @ [y]) =
     (if x = y then levenshtein xs ys
      else min (levenshtein xs ys + 1)
             (min (levenshtein (xs @ [x]) ys + 1) (levenshtein xs (ys @ [y]) + 1)))"
proof -
  have "levenshtein (xs @ [x]) (ys @ [y]) = levenshtein (x # rev xs) (y # rev ys)"
    using levenshtein_rev [of "xs @ [x]" "ys @ [y]"] by simp
  also have "\<dots> = (if x = y then levenshtein (rev xs) (rev ys)
      else min (levenshtein (rev xs) (rev ys) + 1)
             (min (levenshtein (rev (xs @ [x])) (rev ys) + 1)
                (levenshtein (rev xs) (rev (ys @ [y])) + 1)))"
    by (simp only: levenshtein_Cons_Cons rev_append rev.simps append.simps)
  finally show ?thesis
    by (simp only: levenshtein_rev)
qed

subsection \<open>The table of the edit distance\<close>

lemma unat_of_nat_small: "k < 2 ^ 64 \<Longrightarrow> unat (of_nat k :: size_t) = k"
  by (simp add: unat_of_nat)

lemma of_nat_le_iff_small:
  "j < 2 ^ 64 \<Longrightarrow> (of_nat j :: size_t) \<le> n \<longleftrightarrow> j \<le> unat n"
  by (simp add: word_le_nat_alt unat_of_nat_small)

lemma of_nat_min_small:
  assumes "a < 2 ^ 64" and "b < 2 ^ 64"
  shows "min (of_nat a) (of_nat b :: size_t) = of_nat (min a b)"
  using assms by (simp add: min_def word_le_nat_alt unat_of_nat_small)

lemma of_nat_pred: "1 \<le> k \<Longrightarrow> (of_nat k :: size_t) - 1 = of_nat (k - 1)"
  by simp

lemma length_distance_row [simp]: "length (distance_row xs ys i) = Suc (length ys)"
  by (simp add: distance_row_def)

lemma distance_row_nth:
  "j \<le> length ys \<Longrightarrow> distance_row xs ys i ! j = of_nat (levenshtein (take i xs) (take j ys))"
  unfolding distance_row_def by (subst nth_map_upt) simp_all

lemma distance_row_0: "distance_row xs ys 0 = map of_nat [0..<Suc (length ys)]"
  unfolding distance_row_def by (rule map_cong) (auto simp: min_absorb2)

lemma edit_init_loop_fills:
  assumes "unat len2 < 2 ^ 64 - 1" and "length dp = Suc (unat len2)"
    and "1 \<le> j" and "j \<le> Suc (unat len2)"
  shows "edit_init_loop len2 dp (of_nat j) =
    Some (Inr (take j dp @ map of_nat [j..<Suc (unat len2)]))"
  using assms(2-4)
proof (induction "Suc (unat len2) - j" arbitrary: j dp)
  case 0
  then have j: "j = Suc (unat len2)"
    by simp
  then have j64: "j < 2 ^ 64" and nle: "\<not> j \<le> unat len2"
    using assms(1) by simp_all
  have "\<not> (of_nat j :: size_t) \<le> len2"
    unfolding of_nat_le_iff_small [OF j64] by (rule nle)
  moreover have "take j dp = dp"
    using 0(2) j by simp
  moreover have "[j..<Suc (unat len2)] = []"
    using j by simp
  ultimately show ?case
    by (subst edit_init_loop.simps) (simp del: upt_Suc)
next
  case (Suc d)
  then have j: "j \<le> unat len2"
    by simp
  then have j64: "j < 2 ^ 64"
    using assms(1) by simp
  have le: "(of_nat j :: size_t) \<le> len2"
    using j j64 by (simp add: of_nat_le_iff_small)
  have jl: "j < length dp"
    using j Suc.prems(1) by simp
  have set: "vec_set dp (of_nat j) (of_nat j) = Inr (dp[j := of_nat j])"
    using jl j64 by (simp add: vec_set_def unat_of_nat_small)
  have "edit_init_loop len2 dp (of_nat j) = edit_init_loop len2 (dp[j := of_nat j]) (of_nat (Suc j))"
    using le set by (subst edit_init_loop.simps) (simp add: add.commute)
  also have "\<dots> = Some (Inr (take (Suc j) (dp[j := of_nat j]) @ map of_nat [Suc j..<Suc (unat len2)]))"
    using Suc.hyps(2) Suc.prems j by (intro Suc.hyps(1)) simp_all
  also have "take (Suc j) (dp[j := of_nat j]) = take j dp @ [of_nat j]"
    using jl by (simp add: take_Suc_conv_app_nth)
  also have "(take j dp @ [of_nat j]) @ map of_nat [Suc j..<Suc (unat len2)] =
      take j dp @ map of_nat [j..<Suc (unat len2)]"
    using j by (simp add: upt_conv_Cons del: upt_Suc)
  finally show ?case .
qed

lemma levenshtein_prefix_bound:
  assumes "length xs < N" and "length ys < N"
  shows "levenshtein (take a xs) (take b ys) < N"
proof -
  have "levenshtein (take a xs) (take b ys) \<le> max (length (take a xs)) (length (take b ys))"
    by (rule levenshtein_le_max)
  also have "\<dots> \<le> max (length xs) (length ys)"
    by (intro max.mono) simp_all
  also have "\<dots> < N"
    using assms by simp
  finally show ?thesis .
qed

text \<open>One assignment to \<open>dp[j]\<close> in row \<open>i\<close> stores the distance of the two prefixes.\<close>

lemma edit_step_row:
  assumes "readable m s1" and "readable m s2"
    and "1 \<le> i" and "i \<le> unat (len s1)" and "1 \<le> j" and "j \<le> unat (len s2)"
    and "dpPrev = distance_row (chars m s1) (chars m s2) (i - 1)"
    and "length dp = Suc (unat (len s2))"
    and "take j dp = take j (distance_row (chars m s1) (chars m s2) i)"
  shows "edit_step m s1 s2 True (of_nat i) (of_nat j) dpPrev dp =
    Inr (dp[j := distance_row (chars m s1) (chars m s2) i ! j])"
proof -
  let ?xs = "chars m s1" and ?ys = "chars m s2"
  let ?x = "?xs ! (i - 1)" and ?y = "?ys ! (j - 1)"
  let ?D = "levenshtein (take (i - 1) ?xs) (take (j - 1) ?ys)"
  let ?L = "levenshtein (take i ?xs) (take (j - 1) ?ys)"
  let ?U = "levenshtein (take (i - 1) ?xs) (take j ?ys)"
  note b1 = readable_len_bound [OF assms(1)] and b2 = readable_len_bound [OF assms(2)]
  have i64: "i < 2 ^ 64" and j64: "j < 2 ^ 64"
    using assms(4,6) b1 b2 by simp_all
  have e1: "(of_nat i :: size_t) - 1 = of_nat (i - 1)"
    using assms(3) by (rule of_nat_pred)
  have e2: "(of_nat j :: size_t) - 1 = of_nat (j - 1)"
    using assms(5) by (rule of_nat_pred)
  have a: "at m s1 (of_nat i - 1) = Inr ?x"
  proof -
    have lt: "i - 1 < unat (len s1)"
      using assms(3,4) by simp
    show ?thesis
      unfolding e1 at_def
      by (simp only: index_less_len [OF assms(1) lt] load_chars [OF assms(1) lt] if_True)
  qed
  have b: "at m s2 (of_nat j - 1) = Inr ?y"
  proof -
    have lt: "j - 1 < unat (len s2)"
      using assms(5,6) by simp
    show ?thesis
      unfolding e2 at_def
      by (simp only: index_less_len [OF assms(2) lt] load_chars [OF assms(2) lt] if_True)
  qed
  have uj: "unat (of_nat j :: size_t) = j"
    using j64 by (rule unat_of_nat_small)
  have uj1: "unat (of_nat j - 1 :: size_t) = j - 1"
    unfolding e2 using j64 by (intro unat_of_nat_small) simp
  have d: "vec_get dpPrev (of_nat j - 1) = Inr (of_nat ?D)"
    using assms(6) by (simp add: vec_get_def uj1 assms(7) distance_row_nth)
  have u: "vec_get dpPrev (of_nat j) = Inr (of_nat ?U)"
    using assms(6) by (simp add: vec_get_def uj assms(7) distance_row_nth)
  have "dp ! (j - 1) = take j dp ! (j - 1)"
    using assms(5) by simp
  also have "\<dots> = distance_row ?xs ?ys i ! (j - 1)"
    using assms(5) by (simp add: assms(9))
  also have "\<dots> = of_nat ?L"
    using assms(6) by (simp add: distance_row_nth)
  finally have l: "vec_get dp (of_nat j - 1) = Inr (of_nat ?L)"
    using assms(6,8) by (simp add: vec_get_def uj1)
  have set: "vec_set dp (of_nat j) z = Inr (dp[j := z])" for z
    using assms(6,8) by (simp add: vec_set_def uj)
  have tx: "take i ?xs = take (i - 1) ?xs @ [?x]"
    using assms(3,4) take_Suc_conv_app_nth [of "i - 1" ?xs] by simp
  have ty: "take j ?ys = take (j - 1) ?ys @ [?y]"
    using assms(5,6) take_Suc_conv_app_nth [of "j - 1" ?ys] by simp
  have rec: "levenshtein (take i ?xs) (take j ?ys) =
      (if ?x = ?y then ?D else min (?D + 1) (min (?L + 1) (?U + 1)))"
    using levenshtein_snoc_snoc [of "take (i - 1) ?xs" ?x "take (j - 1) ?ys" ?y]
    by (simp only: tx [symmetric] ty [symmetric])
  have small: "levenshtein (take a ?xs) (take b ?ys) < 2 ^ 64 - 1" for a b
    using b1 b2 by (intro levenshtein_prefix_bound) simp_all
  have bound: "?D + 1 < 2 ^ 64" "?L + 1 < 2 ^ 64" "?U + 1 < 2 ^ 64"
    using small [of "i - 1" "j - 1"] small [of i "j - 1"] small [of "i - 1" j] by simp_all
  have "min (of_nat ?D + 1) (min (of_nat ?L + 1) (of_nat ?U + 1)) =
      (of_nat (min (?D + 1) (min (?L + 1) (?U + 1))) :: size_t)"
  proof -
    have p: "(of_nat ?D + 1 :: size_t) = of_nat (?D + 1)" "(of_nat ?L + 1 :: size_t) = of_nat (?L + 1)"
      "(of_nat ?U + 1 :: size_t) = of_nat (?U + 1)"
      by simp_all
    have m: "min (?L + 1) (?U + 1) < 2 ^ 64"
      using bound by simp
    show ?thesis
      unfolding p
      by (simp only: of_nat_min_small [OF bound(2,3)] of_nat_min_small [OF bound(1) m])
  qed
  then have val: "(if ?x = ?y then of_nat ?D
      else min (of_nat ?D + 1) (min (of_nat ?L + 1) (of_nat ?U + 1))) =
      (of_nat (levenshtein (take i ?xs) (take j ?ys)) :: size_t)"
    by (simp add: rec)
  have "edit_step m s1 s2 True (of_nat i) (of_nat j) dpPrev dp =
      Inr (dp[j := (if ?x = ?y then of_nat ?D
        else min (of_nat ?D + 1) (min (of_nat ?L + 1) (of_nat ?U + 1)))])"
    by (simp add: edit_step_def bind_err_def a b d l u set)
  then show ?thesis
    using assms(6) by (simp only: val distance_row_nth length_chars)
qed

lemma edit_inner_loop_row:
  assumes "readable m s1" and "readable m s2"
    and "1 \<le> i" and "i \<le> unat (len s1)"
    and "dpPrev = distance_row (chars m s1) (chars m s2) (i - 1)"
    and "length dp = Suc (unat (len s2))"
    and "1 \<le> j" and "j \<le> Suc (unat (len s2))"
    and "take j dp = take j (distance_row (chars m s1) (chars m s2) i)"
  shows "edit_inner_loop m s1 s2 True (of_nat i) dpPrev dp (of_nat j) =
    Some (Inr (distance_row (chars m s1) (chars m s2) i))"
  using assms(6-9)
proof (induction "Suc (unat (len s2)) - j" arbitrary: j dp)
  case 0
  let ?row = "distance_row (chars m s1) (chars m s2) i"
  note b2 = readable_len_bound [OF assms(2)]
  from 0 have j: "j = Suc (unat (len s2))"
    by simp
  then have j64: "j < 2 ^ 64" and nle: "\<not> j \<le> unat (len s2)"
    using b2 by simp_all
  have stop: "\<not> (of_nat j :: size_t) \<le> len s2"
    unfolding of_nat_le_iff_small [OF j64] by (rule nle)
  have "take j dp = dp" "take j ?row = ?row"
    using 0(2) j by simp_all
  with 0(5) have "dp = ?row"
    by simp
  with stop show ?case
    by (subst edit_inner_loop.simps) simp
next
  case (Suc d)
  let ?row = "distance_row (chars m s1) (chars m s2) i"
  note b2 = readable_len_bound [OF assms(2)]
  from Suc.hyps(2) Suc.prems have j: "j \<le> unat (len s2)"
    by simp
  then have j64: "j < 2 ^ 64"
    using b2 by simp
  have go: "(of_nat j :: size_t) \<le> len s2"
    unfolding of_nat_le_iff_small [OF j64] by (rule j)
  have step: "edit_step m s1 s2 True (of_nat i) (of_nat j) dpPrev dp = Inr (dp[j := ?row ! j])"
    by (rule edit_step_row [OF assms(1-4) Suc.prems(2) j assms(5) Suc.prems(1) Suc.prems(4)])
  have jl: "j < length dp" "j < length ?row"
    using j Suc.prems(1) by simp_all
  have filled: "take (Suc j) (dp[j := ?row ! j]) = take (Suc j) ?row"
    using jl Suc.prems(4) by (simp add: take_Suc_conv_app_nth)
  have "edit_inner_loop m s1 s2 True (of_nat i) dpPrev dp (of_nat j) =
      edit_inner_loop m s1 s2 True (of_nat i) dpPrev (dp[j := ?row ! j]) (of_nat (Suc j))"
    using go step by (subst edit_inner_loop.simps) (simp add: add.commute)
  also have "\<dots> = Some (Inr ?row)"
    using Suc.hyps(2) Suc.prems(1) j filled by (intro Suc.hyps(1)) simp_all
  finally show ?case .
qed

lemma edit_outer_loop_rows:
  assumes "readable m s1" and "readable m s2"
    and "1 \<le> i" and "i \<le> Suc (unat (len s1))"
    and "dp = distance_row (chars m s1) (chars m s2) (i - 1)"
    and "length dpPrev = Suc (unat (len s2))"
  shows "edit_outer_loop m s1 s2 True dp dpPrev (of_nat i) =
    Some (Inr (distance_row (chars m s1) (chars m s2) (unat (len s1))))"
  using assms(3-6)
proof (induction "Suc (unat (len s1)) - i" arbitrary: i dp dpPrev)
  case 0
  note b1 = readable_len_bound [OF assms(1)]
  from 0 have i: "i = Suc (unat (len s1))"
    by simp
  then have i64: "i < 2 ^ 64" and nle: "\<not> i \<le> unat (len s1)"
    using b1 by simp_all
  have stop: "\<not> (of_nat i :: size_t) \<le> len s1"
    unfolding of_nat_le_iff_small [OF i64] by (rule nle)
  from stop 0(4) i show ?case
    by (subst edit_outer_loop.simps) simp
next
  case (Suc d)
  let ?row = "distance_row (chars m s1) (chars m s2)"
  note b1 = readable_len_bound [OF assms(1)]
  from Suc.hyps(2) Suc.prems have i: "i \<le> unat (len s1)"
    by simp
  then have i64: "i < 2 ^ 64"
    using b1 by simp
  have go: "(of_nat i :: size_t) \<le> len s1"
    unfolding of_nat_le_iff_small [OF i64] by (rule i)
  let ?dp' = "dpPrev[0 := of_nat i]"
  have set: "vec_set dpPrev 0 (of_nat i) = Inr ?dp'"
    using Suc.prems(4) by (simp add: vec_set_def)
  have "?row i ! 0 = of_nat (levenshtein (take i (chars m s1)) (take 0 (chars m s2)))"
    by (rule distance_row_nth) simp
  then have first: "?row i ! 0 = of_nat i"
    using i by simp
  have "take 1 ?dp' = [of_nat i]"
    using Suc.prems(4) by (cases dpPrev) simp_all
  moreover have "take 1 (?row i) = [?row i ! 0]"
    by (simp add: take_Suc_conv_app_nth)
  ultimately have filled: "take 1 ?dp' = take 1 (?row i)"
    using first by simp
  have inner: "edit_inner_loop m s1 s2 True (of_nat i) dp ?dp' (of_nat 1) = Some (Inr (?row i))"
    using Suc.prems(1,4) i
    by (intro edit_inner_loop_row [OF assms(1,2) _ _ Suc.prems(3) _ _ _ filled]) simp_all
  have "edit_outer_loop m s1 s2 True dp dpPrev (of_nat i) =
      edit_outer_loop m s1 s2 True (?row i) dp (of_nat (Suc i))"
    using go set inner by (subst edit_outer_loop.simps) (simp add: add.commute)
  also have "\<dots> = Some (Inr (?row (unat (len s1))))"
    using Suc.hyps(2) i Suc.prems(3) by (intro Suc.hyps(1)) simp_all
  finally show ?case .
qed

lemma edit_distance_levenshtein:
  assumes "readable m s1" and "readable m s2"
  shows "edit_distance m s1 s2 True = Some (Inr (of_nat (levenshtein (chars m s1) (chars m s2))))"
proof (cases "len s1 = 0 \<or> len s2 = 0")
  case True
  then have "chars m s1 = [] \<or> chars m s2 = []"
    using size_ref_zero_iff [of s1 m] size_ref_zero_iff [of s2 m] by (simp add: size_ref_def)
  then have "(of_nat (levenshtein (chars m s1) (chars m s2)) :: size_t) = len s1 + len s2"
  proof
    assume e: "chars m s1 = []"
    then have "len s1 = 0"
      using size_ref_zero_iff [of s1 m] by (simp add: size_ref_def)
    with e show ?thesis by simp
  next
    assume e: "chars m s2 = []"
    then have "len s2 = 0"
      using size_ref_zero_iff [of s2 m] by (simp add: size_ref_def)
    with e show ?thesis by simp
  qed
  with True show ?thesis
    by (simp add: edit_distance_def size_ref_def Let_def)
next
  case False
  let ?xs = "chars m s1" and ?ys = "chars m s2"
  let ?n1 = "unat (len s1)" and ?n2 = "unat (len s2)"
  let ?dp0 = "replicate (Suc ?n2) (0 :: size_t)"
  note b1 = readable_len_bound [OF assms(1)] and b2 = readable_len_bound [OF assms(2)]
  have size: "unat (len s2 + 1) = Suc ?n2"
    using b2 by (simp add: unat_word_ariths)
  have "edit_init_loop (len s2) ?dp0 (of_nat 1) =
      Some (Inr (take 1 ?dp0 @ map of_nat [1..<Suc ?n2]))"
    using b2 by (intro edit_init_loop_fills) simp_all
  also have "take 1 ?dp0 @ map of_nat [1..<Suc ?n2] = (map of_nat [0..<Suc ?n2] :: size_t list)"
    by (simp add: upt_conv_Cons del: upt_Suc)
  also have "\<dots> = distance_row ?xs ?ys 0"
    by (simp only: distance_row_0 length_chars)
  finally have init: "edit_init_loop (len s2) ?dp0 1 = Some (Inr (distance_row ?xs ?ys 0))"
    by simp
  have "edit_outer_loop m s1 s2 True (distance_row ?xs ?ys 0) ?dp0 (of_nat 1) =
      Some (Inr (distance_row ?xs ?ys ?n1))"
    by (intro edit_outer_loop_rows [OF assms]) simp_all
  then have outer: "edit_outer_loop m s1 s2 True (distance_row ?xs ?ys 0) ?dp0 1 =
      Some (Inr (distance_row ?xs ?ys ?n1))"
    by simp
  have "distance_row ?xs ?ys ?n1 ! ?n2 = of_nat (levenshtein (take ?n1 ?xs) (take ?n2 ?ys))"
    by (rule distance_row_nth) simp
  then have get: "vec_get (distance_row ?xs ?ys ?n1) (len s2) = Inr (of_nat (levenshtein ?xs ?ys))"
    by (simp add: vec_get_def)
  show ?thesis
    using False
    by (simp add: edit_distance_def size_ref_def Let_def size init outer get del: replicate.simps)
qed

text \<open>The test of the repository, run on the code itself.\<close>

lemma edit_distance_sea_eat:
  "edit_distance (store_cstr 0x1000 ''sea'' (store_cstr 0x2000 ''eat'' no_memory))
     \<lparr>ps = 0x1000, len = 3\<rparr> \<lparr>ps = 0x2000, len = 3\<rparr> True = Some (Inr 2)"
  by (simp add: edit_distance_def edit_init_loop.simps edit_inner_loop.simps
      edit_outer_loop.simps edit_step_def bind_err_def vec_get_def vec_set_def at_def
      size_ref_def load_def store_cstr_def no_memory_def)

text \<open>
  C4. For readable views, \<open>edit_distance\<close> in case-sensitive mode returns, and so
  terminates with, the Levenshtein distance of the two character sequences. Hence it is
  symmetric, it is 0 for a view and itself, and against an empty view it is the length of
  the other view.
\<close>

theorem edit_distance_is_levenshtein:
  assumes "readable m a" and "readable m b"
  shows "edit_distance m a b True = Some (Inr (of_nat (levenshtein (chars m a) (chars m b)))) \<and>
    levenshtein (chars m a) (chars m b) < 2 ^ 64 \<and>
    edit_distance m a b True = edit_distance m b a True \<and>
    edit_distance m a a True = Some (Inr 0) \<and>
    (empty_ref a \<longrightarrow> edit_distance m a b True = Some (Inr (len b))) \<and>
    (empty_ref b \<longrightarrow> edit_distance m a b True = Some (Inr (len a)))"
proof -
  note ab = edit_distance_levenshtein [OF assms]
  have "levenshtein (chars m a) (chars m b) = levenshtein (take (length (chars m a)) (chars m a))
      (take (length (chars m b)) (chars m b))"
    by simp
  also have "\<dots> < 2 ^ 64 - 1"
    using readable_len_bound [OF assms(1)] readable_len_bound [OF assms(2)]
    by (intro levenshtein_prefix_bound) simp_all
  finally have bound: "levenshtein (chars m a) (chars m b) < 2 ^ 64"
    by simp
  have sym: "edit_distance m a b True = edit_distance m b a True"
    unfolding ab edit_distance_levenshtein [OF assms(2,1)] by (simp only: levenshtein_sym)
  have same: "edit_distance m a a True = Some (Inr 0)"
    by (simp add: edit_distance_levenshtein [OF assms(1,1)])
  have e1: "edit_distance m a b True = Some (Inr (len b))" if "empty_ref a"
    using that by (simp add: edit_distance_def empty_ref_def size_ref_def)
  have e2: "edit_distance m a b True = Some (Inr (len a))" if "empty_ref b"
    using that by (simp add: edit_distance_def empty_ref_def size_ref_def)
  from ab bound sym same e1 e2 show ?thesis
    by blast
qed

theorem edit_distance_is_levenshtein_witness:
  "readable (store_cstr 0x1000 ''sea'' (store_cstr 0x2000 ''eat'' no_memory)) \<lparr>ps = 0x1000, len = 3\<rparr> \<and>
   readable (store_cstr 0x1000 ''sea'' (store_cstr 0x2000 ''eat'' no_memory)) \<lparr>ps = 0x2000, len = 3\<rparr> \<and>
   readable (store_cstr 0x1000 ''sea'' (store_cstr 0x2000 ''eat'' no_memory)) \<lparr>ps = 0x1000, len = 0\<rparr> \<and>
   empty_ref \<lparr>ps = 0x1000, len = 0\<rparr> \<and>
   levenshtein ''sea'' ''eat'' = 2 \<and>
   edit_distance (store_cstr 0x1000 ''sea'' (store_cstr 0x2000 ''eat'' no_memory))
     \<lparr>ps = 0x1000, len = 3\<rparr> \<lparr>ps = 0x2000, len = 3\<rparr> True = Some (Inr 2) \<and>
   edit_distance (store_cstr 0x1000 ''sea'' (store_cstr 0x2000 ''eat'' no_memory))
     \<lparr>ps = 0x2000, len = 3\<rparr> \<lparr>ps = 0x1000, len = 3\<rparr> True = Some (Inr 2) \<and>
   edit_distance (store_cstr 0x1000 ''sea'' (store_cstr 0x2000 ''eat'' no_memory))
     \<lparr>ps = 0x1000, len = 3\<rparr> \<lparr>ps = 0x1000, len = 3\<rparr> True = Some (Inr 0) \<and>
   edit_distance (store_cstr 0x1000 ''sea'' (store_cstr 0x2000 ''eat'' no_memory))
     \<lparr>ps = 0x1000, len = 0\<rparr> \<lparr>ps = 0x2000, len = 3\<rparr> True = Some (Inr 3)"
proof -
  let ?M = "store_cstr 0x1000 ''sea'' (store_cstr 0x2000 ''eat'' no_memory)"
  let ?a = "\<lparr>ps = 0x1000, len = 3\<rparr>" and ?b = "\<lparr>ps = 0x2000, len = 3\<rparr>"
  let ?e = "\<lparr>ps = 0x1000, len = 0\<rparr>"
  have r: "readable ?M ?a" "readable ?M ?b" "readable ?M ?e"
    by (simp_all add: mem_eval)
  have c: "chars ?M ?a = ''sea''" "chars ?M ?b = ''eat''"
    by (simp_all add: mem_eval)
  have l: "levenshtein ''sea'' ''eat'' = 2"
    by simp
  have e: "empty_ref ?e"
    by (simp add: empty_ref_def)
  from edit_distance_is_levenshtein [OF r(1,2)]
  have 1: "edit_distance ?M ?a ?b True = Some (Inr (of_nat (levenshtein ''sea'' ''eat'')))"
    and 2: "edit_distance ?M ?a ?b True = edit_distance ?M ?b ?a True"
    and 3: "edit_distance ?M ?a ?a True = Some (Inr 0)"
    unfolding c by blast+
  from edit_distance_is_levenshtein [OF r(3,2)] e
  have "edit_distance ?M ?e ?b True = Some (Inr (len ?b))"
    by blast
  then have 4: "edit_distance ?M ?e ?b True = Some (Inr 3)"
    by simp
  from 1 have 5: "edit_distance ?M ?a ?b True = Some (Inr 2)"
    by (simp add: l)
  from 2 5 have 6: "edit_distance ?M ?b ?a True = Some (Inr 2)"
    by simp
  from r e l 3 4 5 6 show ?thesis
    by (intro conjI)
qed

end
